theory Spec2Isabelle
  imports Main "HOL-Library.AList" "HOL-Library.Sublist"
begin

section \<open>Text\<close>

text \<open>
  A Python \<^verbatim>\<open>str\<close> is a sequence of Unicode code points, so a string of the builder is
  a list of natural numbers. \<open>ustr\<close> reads an ASCII literal.
\<close>

type_synonym ustring = "nat list"

definition ustr :: "string \<Rightarrow> ustring" where
  "ustr s = map of_char s"

text \<open>\<^verbatim>\<open>str.isspace\<close>: the white space of \<^verbatim>\<open>str.strip()\<close> and of the regular expression \<^verbatim>\<open>\s\<close>.\<close>

definition py_isspace :: "nat \<Rightarrow> bool" where
  "py_isspace c =
     ((9 \<le> c \<and> c \<le> 13) \<or> (28 \<le> c \<and> c \<le> 32) \<or> c = 133 \<or> c = 160 \<or> c = 5760 \<or>
      (8192 \<le> c \<and> c \<le> 8202) \<or> c = 8232 \<or> c = 8233 \<or> c = 8239 \<or> c = 8287 \<or> c = 12288)"

definition strip :: "ustring \<Rightarrow> ustring" where
  "strip s = rev (dropWhile py_isspace (rev (dropWhile py_isspace s)))"

fun starts_with :: "ustring \<Rightarrow> ustring \<Rightarrow> bool" where
  "starts_with [] t = True"
| "starts_with (c # cs) [] = False"
| "starts_with (c # cs) (d # ds) = (c = d \<and> starts_with cs ds)"

text \<open>\<^verbatim>\<open>sub in s\<close> on strings.\<close>

fun contains :: "ustring \<Rightarrow> ustring \<Rightarrow> bool" where
  "contains sub [] = starts_with sub []"
| "contains sub (c # cs) = (starts_with sub (c # cs) \<or> contains sub cs)"

text \<open>\<^verbatim>\<open>sep.join(parts)\<close>.\<close>

fun join :: "ustring \<Rightarrow> ustring list \<Rightarrow> ustring" where
  "join sep [] = []"
| "join sep [p] = p"
| "join sep (p # q # ps) = p @ sep @ join sep (q # ps)"

text \<open>\<^verbatim>\<open>s.split(".")[-1]\<close>: what follows the last full stop (code point 46), all of \<open>s\<close>
  when it has none. The list \<^verbatim>\<open>split\<close> returns is never empty, so the index cannot fail.\<close>

definition split_last :: "ustring \<Rightarrow> ustring" where
  "split_last s = rev (takeWhile (\<lambda>c. c \<noteq> 46) (rev s))"

section \<open>The records of the output\<close>

text \<open>The dictionaries \<^verbatim>\<open>visit_field\<close> and \<^verbatim>\<open>visit_desc\<close> build, key by key.\<close>

record param_record =
  p_name :: ustring
  p_type :: ustring
  p_description :: ustring

record api_record =
  class_name :: ustring
  signature :: ustring
  description :: ustring
  parameters :: "param_record list"
  examples :: "ustring list"

section \<open>The regular expression of the linker\<close>

text \<open>
  \<^verbatim>\<open>finish\<close> calls \<^verbatim>\<open>re.search(rf"\b{short_name}\b", code)\<close>: the short name goes into the
  pattern as it is, unescaped. Python's \<^verbatim>\<open>re\<close> module is not part of the repository. Two
  families of short names are modelled here, the rest of the library is a parameter:
  \<^item> a short name without any of the special characters \<^verbatim>\<open>. ^ $ * + ? { } [ ] \ | ( )\<close> is a
    literal, and the pattern asks for an occurrence of it between two word boundaries;
  \<^item> a short name made of such characters and of parentheses that do not balance is not a
    pattern: \<^verbatim>\<open>re\<close> raises (\<^verbatim>\<open>re.error\<close>: missing or unbalanced parenthesis);
  \<^item> for any other short name the result is what the library parameter says.
  The library parameter also holds the interpreter's table of word characters beyond
  ASCII (\<^verbatim>\<open>\b\<close> on a \<^verbatim>\<open>str\<close> pattern follows Unicode).
\<close>

datatype py_error = PatternError

record re_lib =
  uni_word :: "nat \<Rightarrow> bool"
  other_search :: "ustring \<Rightarrow> ustring \<Rightarrow> py_error + bool"

definition ascii_word :: "nat \<Rightarrow> bool" where
  "ascii_word c = ((48 \<le> c \<and> c \<le> 57) \<or> (65 \<le> c \<and> c \<le> 90) \<or> c = 95 \<or> (97 \<le> c \<and> c \<le> 122))"

definition is_word :: "re_lib \<Rightarrow> nat \<Rightarrow> bool" where
  "is_word lib c = (if c < 128 then ascii_word c else uni_word lib c)"

text \<open>\<^verbatim>\<open>\b\<close> between the character before a position and the character after it
  (\<open>None\<close> at either end of the text): exactly one of the two is a word character.\<close>

definition word_side :: "re_lib \<Rightarrow> nat option \<Rightarrow> bool" where
  "word_side lib x = (case x of None \<Rightarrow> False | Some c \<Rightarrow> is_word lib c)"

definition at_boundary :: "re_lib \<Rightarrow> nat option \<Rightarrow> nat option \<Rightarrow> bool" where
  "at_boundary lib prev nxt = (word_side lib prev \<noteq> word_side lib nxt)"

definition head_opt :: "ustring \<Rightarrow> nat option" where
  "head_opt t = (case t of [] \<Rightarrow> None | c # cs \<Rightarrow> Some c)"

definition last_opt :: "nat option \<Rightarrow> ustring \<Rightarrow> nat option" where
  "last_opt prev s = (if s = [] then prev else Some (last s))"

text \<open>The literal \<open>lit\<close> matches at the head of \<open>t\<close>, \<open>prev\<close> being the character in front.\<close>

definition match_here :: "re_lib \<Rightarrow> nat option \<Rightarrow> ustring \<Rightarrow> ustring \<Rightarrow> bool" where
  "match_here lib prev lit t =
     (starts_with lit t \<and> at_boundary lib prev (head_opt t) \<and>
      at_boundary lib (last_opt prev lit) (head_opt (drop (length lit) t)))"

fun search_from :: "re_lib \<Rightarrow> nat option \<Rightarrow> ustring \<Rightarrow> ustring \<Rightarrow> bool" where
  "search_from lib prev lit [] = match_here lib prev lit []"
| "search_from lib prev lit (c # cs) =
     (match_here lib prev lit (c # cs) \<or> search_from lib (Some c) lit cs)"

definition special :: "nat \<Rightarrow> bool" where
  "special c = (c \<in> {36, 40, 41, 42, 43, 46, 63, 91, 92, 93, 94, 123, 124, 125})"

definition plain :: "ustring \<Rightarrow> bool" where
  "plain s = list_all (\<lambda>c. \<not> special c) s"

definition plain_or_paren :: "ustring \<Rightarrow> bool" where
  "plain_or_paren s = list_all (\<lambda>c. c = 40 \<or> c = 41 \<or> \<not> special c) s"

text \<open>The parentheses of \<open>s\<close> do not balance, \<open>d\<close> groups being open.\<close>

fun unbalanced :: "nat \<Rightarrow> ustring \<Rightarrow> bool" where
  "unbalanced d [] = (d \<noteq> 0)"
| "unbalanced d (c # cs) =
     (if c = 40 then unbalanced (Suc d) cs
      else if c = 41 then (d = 0 \<or> unbalanced (d - 1) cs)
      else unbalanced d cs)"

definition re_search_word :: "re_lib \<Rightarrow> ustring \<Rightarrow> ustring \<Rightarrow> py_error + bool" where
  "re_search_word lib short_name code =
     (if plain short_name then Inr (search_from lib None short_name code)
      else if plain_or_paren short_name \<and> unbalanced 0 short_name then Inl PatternError
      else other_search lib ([92, 98] @ short_name @ [92, 98]) code)"

section \<open>The builder: linking\<close>

text \<open>
  \<^verbatim>\<open>all_api_classes\<close> is a list of dictionaries, \<^verbatim>\<open>all_code_blocks\<close> a dictionary from
  document names to lists of code blocks. A Python dictionary keeps its keys in the order
  of their first insertion and a later write to a key replaces the value where it stands:
  an association list under \<^const>\<open>AList.update\<close>.
\<close>

record builder =
  all_api_classes :: "api_record list"
  all_code_blocks :: "(ustring \<times> ustring list) list"

definition init :: builder where
  "init = \<lparr>all_api_classes = [], all_code_blocks = []\<rparr>"

text \<open>
  \<^verbatim>\<open>class_map\<close> maps a short name to the dictionary object of a class, the same object
  that stands in \<^verbatim>\<open>all_api_classes\<close>; the model maps the short name to the position of
  that object in the list.
\<close>

definition class_map :: "api_record list \<Rightarrow> (ustring \<times> nat) list" where
  "class_map recs =
     foldl (\<lambda>m (i, info). AList.update (split_last (class_name info)) i m) [] (enumerate 0 recs)"

text \<open>A loop whose body may raise: the first error ends it.\<close>

fun fold_err :: "('a \<Rightarrow> 's \<Rightarrow> 'e + 's) \<Rightarrow> 'a list \<Rightarrow> 's \<Rightarrow> 'e + 's" where
  "fold_err f [] s = Inr s"
| "fold_err f (x # xs) s = (case f x s of Inl e \<Rightarrow> Inl e | Inr s' \<Rightarrow> fold_err f xs s')"

text \<open>\<^verbatim>\<open>if code not in class_info["examples"]: class_info["examples"].append(code)\<close>\<close>

definition link_example :: "ustring \<Rightarrow> nat \<Rightarrow> api_record list \<Rightarrow> api_record list" where
  "link_example code i recs =
     (if code \<in> set (examples (recs ! i)) then recs
      else recs[i := (recs ! i)\<lparr>examples := examples (recs ! i) @ [code]\<rparr>])"

definition link_class :: "re_lib \<Rightarrow> ustring \<Rightarrow> ustring \<times> nat \<Rightarrow> api_record list \<Rightarrow> py_error + api_record list" where
  "link_class lib code = (\<lambda>(short_name, i) recs.
     case re_search_word lib short_name code of
       Inl e \<Rightarrow> Inl e
     | Inr hit \<Rightarrow> Inr (if hit then link_example code i recs else recs))"

definition link_code :: "re_lib \<Rightarrow> (ustring \<times> nat) list \<Rightarrow> ustring \<Rightarrow> api_record list \<Rightarrow> py_error + api_record list" where
  "link_code lib cmap code recs = fold_err (link_class lib code) cmap recs"

definition link_doc :: "re_lib \<Rightarrow> (ustring \<times> nat) list \<Rightarrow> ustring \<times> ustring list \<Rightarrow> api_record list \<Rightarrow> py_error + api_record list" where
  "link_doc lib cmap = (\<lambda>(docname, code_blocks) recs. fold_err (link_code lib cmap) code_blocks recs)"

text \<open>\<^verbatim>\<open>finish\<close>: the value is the list handed to \<^verbatim>\<open>json.dump\<close>, or the error raised.\<close>

definition finish :: "re_lib \<Rightarrow> builder \<Rightarrow> py_error + api_record list" where
  "finish lib b =
     fold_err (link_doc lib (class_map (all_api_classes b))) (all_code_blocks b) (all_api_classes b)"

section \<open>The document tree\<close>

text \<open>
  The document tree is the host framework's (docutils, Sphinx); the builder reads four
  things of a node: its class, the attributes \<^verbatim>\<open>objtype\<close> and \<^verbatim>\<open>ids\<close>, its children and
  its text (\<^verbatim>\<open>astext()\<close>). An element carries them in this order. A \<open>Text\<close> leaf holds the
  string its \<^verbatim>\<open>astext()\<close> returns. The class of an element is the class \<^verbatim>\<open>traverse\<close> tests
  with \<^verbatim>\<open>isinstance\<close> and, for \<open>Desc\<close>, \<open>Field\<close> and \<open>LiteralBlock\<close>, the class name the
  visitor dispatches on.

  \<^verbatim>\<open>astext()\<close> is a method of the class of the node. For an element, docutils joins the
  texts of the children with the \<^verbatim>\<open>child_text_separator\<close> of the class (none for a text
  element such as a paragraph, a blank line for a container), and a class may put a text
  of its own in front and behind: Sphinx's \<^verbatim>\<open>desc_parameterlist\<close> returns the texts of its
  children, joined with a comma and a space, between parentheses; \<^verbatim>\<open>desc_optional\<close> uses
  square brackets, \<^verbatim>\<open>desc_returns\<close> starts with an arrow, an \<^verbatim>\<open>image\<close> returns its
  \<^verbatim>\<open>alt\<close> attribute. \<open>text_form\<close> holds these three strings of an element.

  \<^verbatim>\<open>visit_field\<close> removes nodes from the tree (\<^verbatim>\<open>strong_tag.parent.remove(strong_tag)\<close>)
  while it runs over a list of nodes it computed before. A removed node leaves the
  children of its parent, but the object lives on, and the loop may still reach it. The
  model keeps a removed child where it stood, wrapped in \<open>Detached\<close>: whatever reads the
  children of a node skips it, and a path (the positions of the children to follow) still
  leads to it, so that paths name the same objects before and after a removal.
\<close>

datatype node_class =
  Desc | DescSignature | DescContent | Paragraph | Strong | Emphasis | Field | ListItem
  | LiteralBlock | Other

record text_form =
  text_before :: ustring
  child_text_separator :: ustring
  text_after :: ustring

datatype node =
    Text ustring
  | Element node_class "ustring option" "ustring list" text_form "node list"
  | Detached node

fun live :: "node \<Rightarrow> bool" where
  "live (Detached n) = False"
| "live n = True"

text \<open>\<^verbatim>\<open>node.astext()\<close>\<close>

fun astext :: "node \<Rightarrow> ustring" where
  "astext (Text s) = s"
| "astext (Element c ot is form ks) =
     text_before form @ join (child_text_separator form) (map astext (filter live ks)) @ text_after form"
| "astext (Detached n) = astext n"

text \<open>\<^verbatim>\<open>node.traverse(cls)\<close>: the nodes of class \<open>cls\<close> in the subtree of \<open>node\<close>, itself included,
  in document order, each with its path from \<open>node\<close>.\<close>

fun traverse :: "node_class \<Rightarrow> node \<Rightarrow> (nat list \<times> node) list"
  and traverse_children :: "node_class \<Rightarrow> nat \<Rightarrow> node list \<Rightarrow> (nat list \<times> node) list" where
  "traverse c (Text s) = []"
| "traverse c (Element k ot is sp ks) =
     (if k = c then [([], Element k ot is sp ks)] else []) @ traverse_children c 0 ks"
| "traverse c (Detached n) = traverse c n"
| "traverse_children c i [] = []"
| "traverse_children c i (k # ks) =
     (if live k then map (\<lambda>(p, m). (i # p, m)) (traverse c k) else []) @
     traverse_children c (Suc i) ks"

text \<open>The node a path leads to, and a change of the node a path leads to.\<close>

fun node_at :: "node \<Rightarrow> nat list \<Rightarrow> node option" where
  "node_at (Detached n) p = node_at n p"
| "node_at (Text s) [] = Some (Text s)"
| "node_at (Element c ot is sp ks) [] = Some (Element c ot is sp ks)"
| "node_at (Text s) (i # p) = None"
| "node_at (Element c ot is sp ks) (i # p) = (if i < length ks then node_at (ks ! i) p else None)"

fun modify_at :: "nat list \<Rightarrow> (node \<Rightarrow> node) \<Rightarrow> node \<Rightarrow> node" where
  "modify_at p f (Detached n) = Detached (modify_at p f n)"
| "modify_at [] f (Text s) = f (Text s)"
| "modify_at [] f (Element c ot is sp ks) = f (Element c ot is sp ks)"
| "modify_at (i # p) f (Text s) = Text s"
| "modify_at (i # p) f (Element c ot is sp ks) =
     Element c ot is sp (if i < length ks then ks[i := modify_at p f (ks ! i)] else ks)"

text \<open>\<^verbatim>\<open>re.sub(r"\s+", " ", s)\<close>: \<open>in_run\<close> says that the character before was white space.\<close>

fun sub_ws :: "bool \<Rightarrow> ustring \<Rightarrow> ustring" where
  "sub_ws in_run [] = []"
| "sub_ws in_run (c # cs) =
     (if py_isspace c then (if in_run then sub_ws True cs else 32 # sub_ws True cs)
      else c # sub_ws False cs)"

text \<open>\<^verbatim>\<open>s.replace(pat, "")\<close> for a pattern that is not empty.\<close>

fun remove_all :: "ustring \<Rightarrow> ustring \<Rightarrow> ustring" where
  "remove_all pat [] = []"
| "remove_all pat (c # cs) =
     (if pat \<noteq> [] \<and> starts_with pat (c # cs) then remove_all pat (drop (length pat - 1) cs)
      else c # remove_all pat cs)"


text \<open>\<^verbatim>\<open>next(iter(xs), None)\<close> and \<^verbatim>\<open>s.find(c)\<close> for one character.\<close>

definition first :: "'a list \<Rightarrow> 'a option" where
  "first xs = (case xs of [] \<Rightarrow> None | x # _ \<Rightarrow> Some x)"

definition find_char :: "nat \<Rightarrow> ustring \<Rightarrow> nat option" where
  "find_char c s = (if c \<in> set s then Some (length (takeWhile (\<lambda>d. d \<noteq> c) s)) else None)"

text \<open>\<^verbatim>\<open>node.get("objtype")\<close> and \<^verbatim>\<open>node.get("ids")\<close>.\<close>

definition get_objtype :: "node \<Rightarrow> ustring option" where
  "get_objtype n = (case n of Element c ot is sp ks \<Rightarrow> ot | _ \<Rightarrow> None)"

definition get_ids :: "node \<Rightarrow> ustring list" where
  "get_ids n = (case n of Element c ot is sp ks \<Rightarrow> is | _ \<Rightarrow> [])"

section \<open>The visitor of the API pages\<close>

text \<open>
  \<^verbatim>\<open>APIDataVisitor\<close>: \<^verbatim>\<open>current_class\<close> is the dictionary appended last to \<^verbatim>\<open>data\<close>, the same
  object; the model holds its position in \<open>data\<close>. A node is always true in Python, so
  \<^verbatim>\<open>if sig_node\<close> asks whether a node was found.
\<close>

record api_visitor =
  data :: "api_record list"
  current_class :: "nat option"

definition visit_desc :: "api_visitor \<Rightarrow> node \<Rightarrow> api_visitor" where
  "visit_desc v n =
     (if get_objtype n = Some (ustr ''class'') then
        (case first (traverse DescSignature n) of
           None \<Rightarrow> v
         | Some (sig_path, sig_node) \<Rightarrow>
             v\<lparr>data := data v @
                  [\<lparr>class_name =
                      (if get_ids sig_node \<noteq> [] then hd (get_ids sig_node)
                       else ustr ''UnknownClass''),
                    signature =
                      strip (remove_all (182 # ustr ''[source]'') (sub_ws False (astext sig_node))),
                    description =
                      (case first (traverse DescContent n) of
                         None \<Rightarrow> []
                       | Some (content_path, content_node) \<Rightarrow>
                           (case first (traverse Paragraph content_node) of
                              None \<Rightarrow> []
                            | Some (para_path, para_node) \<Rightarrow> astext para_node)),
                    parameters = [],
                    examples = []\<rparr>],
               current_class := Some (length (data v))\<rparr>)
      else v)"

definition depart_desc :: "api_visitor \<Rightarrow> node \<Rightarrow> api_visitor" where
  "depart_desc v n =
     (if get_objtype n = Some (ustr ''class'') then v\<lparr>current_class := None\<rparr> else v)"

text \<open>
  The body of the loop of \<^verbatim>\<open>visit_field\<close>, from the paragraph on: the name and the type are
  read, then the two nodes are removed, then the text of the paragraph is read. The
  character looked for is U+2013 (8211), as the source file has it.
\<close>

definition read_param :: "node \<Rightarrow> param_record \<times> node" where
  "read_param para =
     (let strong_tag = first (traverse Strong para);
          emphasis_tag = first (traverse Emphasis para);
          name = (case strong_tag of None \<Rightarrow> [] | Some (sp, s) \<Rightarrow> astext s);
          type_str = (case emphasis_tag of None \<Rightarrow> ustr ''Any'' | Some (ep, e) \<Rightarrow> astext e);
          para1 = (case strong_tag of None \<Rightarrow> para | Some (sp, s) \<Rightarrow> modify_at sp Detached para);
          para2 = (case emphasis_tag of None \<Rightarrow> para1 | Some (ep, e) \<Rightarrow> modify_at ep Detached para1);
          full_text = astext para2;
          desc = (case find_char 8211 full_text of
                    None \<Rightarrow> []
                  | Some desc_start_index \<Rightarrow> strip (drop (desc_start_index + 1) full_text))
      in (\<lparr>p_name = name, p_type = type_str, p_description = desc\<rparr>, para2))"

definition visit_list_item :: "node \<Rightarrow> param_record list \<times> node" where
  "visit_list_item list_item =
     (case first (traverse Paragraph list_item) of
        None \<Rightarrow> ([], list_item)
      | Some (para_path, para) \<Rightarrow>
          (let (r, para') = read_param para
           in (if p_name r \<noteq> [] then [r] else [], modify_at para_path (\<lambda>_. para') list_item)))"

text \<open>The loop: the list items were listed before the first removal, so each is looked up
  by its path in the body as it stands now.\<close>

definition visit_list_items :: "nat list list \<Rightarrow> node \<Rightarrow> param_record list \<times> node" where
  "visit_list_items paths field_body_node =
     foldl (\<lambda>(acc, body) p.
              case node_at body p of
                None \<Rightarrow> (acc, body)
              | Some list_item \<Rightarrow>
                  (let (rs, list_item') = visit_list_item list_item
                   in (acc @ rs, modify_at p (\<lambda>_. list_item') body)))
       ([], field_body_node) paths"

text \<open>\<^verbatim>\<open>node.children\<close>, each child with its position.\<close>

definition live_children :: "node list \<Rightarrow> (nat \<times> node) list" where
  "live_children ks = filter (\<lambda>(i, k). live k) (enumerate 0 ks)"

definition add_parameters :: "nat \<Rightarrow> param_record list \<Rightarrow> api_record list \<Rightarrow> api_record list" where
  "add_parameters cur ps recs = recs[cur := (recs ! cur)\<lparr>parameters := parameters (recs ! cur) @ ps\<rparr>]"

definition visit_field :: "api_visitor \<Rightarrow> node \<Rightarrow> api_visitor \<times> node" where
  "visit_field v n =
     (case current_class v of
        None \<Rightarrow> (v, n)
      | Some cur \<Rightarrow>
          (case n of
             Element c ot is sp ks \<Rightarrow>
               (case live_children ks of
                  [(i, field_name_node), (j, field_body_node)] \<Rightarrow>
                    if \<not> contains (ustr ''Parameters'') (astext field_name_node) then (v, n)
                    else
                      (let (ps, body') =
                             visit_list_items (map fst (traverse ListItem field_body_node)) field_body_node
                       in (v\<lparr>data := add_parameters cur ps (data v)\<rparr>,
                           Element c ot is sp (ks[j := body'])))
                | _ \<Rightarrow> (v, n))
           | _ \<Rightarrow> (v, n)))"

text \<open>
  \<^verbatim>\<open>doctree.walkabout(visitor)\<close>: the visit method of the class of the node, then the
  children from left to right (the children the node has after its visit), then the
  departure method. \<^verbatim>\<open>visit_field\<close> changes the subtree it was called on, so the walk goes on
  in the changed tree; it never adds a node, which is why the walk ends: \<open>weight\<close> counts
  the nodes.
\<close>

fun weight :: "node \<Rightarrow> nat" where
  "weight (Text s) = 1"
| "weight (Element c ot is sp ks) = Suc (sum_list (map weight ks))"
| "weight (Detached n) = weight n"

definition dispatch_visit :: "api_visitor \<Rightarrow> node \<Rightarrow> api_visitor \<times> node" where
  "dispatch_visit v n =
     (case n of
        Element c ot is sp ks \<Rightarrow>
          if c = Desc then (visit_desc v n, n)
          else if c = Field then visit_field v n
          else (v, n)
      | _ \<Rightarrow> (v, n))"

definition dispatch_departure :: "api_visitor \<Rightarrow> node \<Rightarrow> api_visitor" where
  "dispatch_departure v n =
     (case n of
        Element c ot is sp ks \<Rightarrow> if c = Desc then depart_desc v n else v
      | _ \<Rightarrow> v)"

definition node_children :: "node \<Rightarrow> node list" where
  "node_children n = (case n of Element c ot is sp ks \<Rightarrow> ks | _ \<Rightarrow> [])"

definition set_children :: "node list \<Rightarrow> node \<Rightarrow> node" where
  "set_children ks n = (case n of Element c ot is sp old \<Rightarrow> Element c ot is sp ks | _ \<Rightarrow> n)"

lemma weight_pos: "0 < weight n"
  by (induction n) auto

lemma weight_modify_at: "(\<And>m. weight (f m) = weight m) \<Longrightarrow> weight (modify_at p f n) = weight n"
proof (induction p f n rule: modify_at.induct)
  case (5 i p f c ot "is" sp ks)
  show ?case
  proof (cases "i < length ks")
    case True
    have "weight (modify_at p f (ks ! i)) = weight (ks ! i)"
      using 5 True by simp
    then have "map weight (ks[i := modify_at p f (ks ! i)]) = map weight ks"
      using True by (simp add: map_update list_update_same_conv)
    then show ?thesis using True by simp
  next
    case False
    then show ?thesis by simp
  qed
qed simp_all


lemma weight_read_param: "weight (snd (read_param para)) = weight para"
  by (simp add: read_param_def Let_def weight_modify_at split: option.splits prod.splits)


lemma weight_modify_const:
  "node_at n p = Some m \<Longrightarrow> weight m' = weight m \<Longrightarrow> weight (modify_at p (\<lambda>_. m') n) = weight n"
proof (induction n p arbitrary: m rule: node_at.induct)
  case (5 c ot "is" sp ks i p)
  then have i: "i < length ks" and at: "node_at (ks ! i) p = Some m"
    by (auto split: if_splits)
  have "weight (modify_at p (\<lambda>_. m') (ks ! i)) = weight (ks ! i)"
    using 5 i at by simp
  then have "map weight (ks[i := modify_at p (\<lambda>_. m') (ks ! i)]) = map weight ks"
    using i by (simp add: map_update list_update_same_conv)
  then show ?case using i by simp
qed auto

lemma traverse_node_at:
  "(p, m) \<in> set (traverse c n) \<Longrightarrow> node_at n p = Some m"
  "(p, m) \<in> set (traverse_children c i ks) \<Longrightarrow>
     \<exists>j q. p = (i + j) # q \<and> j < length ks \<and> node_at (ks ! j) q = Some m"
proof (induction c n and c i ks arbitrary: p m and p m rule: traverse_traverse_children.induct)
  case (2 c k ot "is" sp ks)
  show ?case
  proof (cases "p = []")
    case True
    with 2 show ?thesis by (auto split: if_splits)
  next
    case False
    with 2(2) have "(p, m) \<in> set (traverse_children c 0 ks)"
      by (auto split: if_splits)
    from 2(1) [OF this] show ?thesis by auto
  qed
next
  case (5 c i k ks)
  from 5(3) have "(live k \<and> (\<exists>q. p = i # q \<and> (q, m) \<in> set (traverse c k)))
      \<or> (p, m) \<in> set (traverse_children c (Suc i) ks)"
    by (auto split: if_splits)
  then consider
    (hd) q where "live k" "p = i # q" "(q, m) \<in> set (traverse c k)"
    | (tl) "(p, m) \<in> set (traverse_children c (Suc i) ks)"
    by blast
  then show ?case
  proof cases
    case hd
    with 5(1) have "node_at k q = Some m" by simp
    with \<open>p = i # q\<close> show ?thesis by (intro exI [of _ 0]) auto
  next
    case tl
    from 5(2) [OF this] obtain j q where
      "p = (Suc i + j) # q" "j < length ks" "node_at (ks ! j) q = Some m" by auto
    then show ?thesis by (intro exI [of _ "Suc j"]) auto
  qed
qed auto

lemma first_mem: "first xs = Some x \<Longrightarrow> x \<in> set xs"
  by (auto simp: first_def split: list.splits)

lemma weight_visit_list_item: "weight (snd (visit_list_item n)) = weight n"
proof (cases "first (traverse Paragraph n)")
  case None
  then show ?thesis by (simp add: visit_list_item_def)
next
  case (Some a)
  obtain pp para where a: "a = (pp, para)" by (cases a)
  obtain r para' where rp: "read_param para = (r, para')" by (cases "read_param para")
  have w: "weight para' = weight para" using weight_read_param [of para] rp by simp
  have "(pp, para) \<in> set (traverse Paragraph n)"
    using Some a by (simp add: first_mem)
  then have "node_at n pp = Some para"
    by (rule traverse_node_at(1))
  then have "weight (modify_at pp (\<lambda>_. para') n) = weight n"
    using w by (rule weight_modify_const)
  then show ?thesis
    using Some a rp by (simp add: visit_list_item_def)
qed

lemma weight_visit_list_items: "weight (snd (visit_list_items paths body)) = weight body"
proof -
  have "weight (snd (foldl (\<lambda>(acc, body) p.
              case node_at body p of
                None \<Rightarrow> (acc, body)
              | Some list_item \<Rightarrow>
                  (let (rs, list_item') = visit_list_item list_item
                   in (acc @ rs, modify_at p (\<lambda>_. list_item') body))) (acc, body) paths)) = weight body"
    for acc
  proof (induction paths arbitrary: acc body)
    case Nil
    then show ?case by simp
  next
    case (Cons p paths)
    show ?case
    proof (cases "node_at body p")
      case None
      then show ?thesis using Cons by simp
    next
      case (Some item)
      obtain rs item' where vi: "visit_list_item item = (rs, item')" by (cases "visit_list_item item")
      have "weight item' = weight item" using weight_visit_list_item [of item] vi by simp
      with Some have "weight (modify_at p (\<lambda>_. item') body) = weight body"
        by (rule weight_modify_const)
      then show ?thesis using Some vi Cons by simp
    qed
  qed
  then show ?thesis by (simp add: visit_list_items_def)
qed

lemma live_children_nth: "(j, k) \<in> set (live_children ks) \<Longrightarrow> j < length ks \<and> ks ! j = k \<and> live k"
  by (auto simp: live_children_def in_set_enumerate_eq)

lemma weight_visit_field: "weight (snd (visit_field v n)) = weight n"
proof (cases "current_class v")
  case None
  then show ?thesis by (simp add: visit_field_def)
next
  case (Some cur)
  show ?thesis
  proof (cases n)
    case (Element c ot "is" sp ks)
    show ?thesis
    proof (cases "\<exists>i a j b. live_children ks = [(i, a), (j, b)] \<and> contains (ustr ''Parameters'') (astext a)")
      case True
      then obtain i a j b where lc: "live_children ks = [(i, a), (j, b)]"
        and c: "contains (ustr ''Parameters'') (astext a)" by blast
      obtain ps body' where vl: "visit_list_items (map fst (traverse ListItem b)) b = (ps, body')"
        by (cases "visit_list_items (map fst (traverse ListItem b)) b")
      have j: "j < length ks" "ks ! j = b" using live_children_nth [of j b ks] lc by auto
      have "weight body' = weight b" using weight_visit_list_items [of "map fst (traverse ListItem b)" b] vl by simp
      then have "map weight (ks[j := body']) = map weight ks"
        using j by (simp add: map_update list_update_same_conv)
      then show ?thesis using Some Element lc c vl by (simp add: visit_field_def)
    next
      case False
      then have "visit_field v n = (v, n)"
        using Some Element
        by (auto simp: visit_field_def split: list.splits prod.splits)
      then show ?thesis by simp
    qed
  qed (simp_all add: visit_field_def Some)
qed

lemma weight_dispatch_visit: "weight (snd (dispatch_visit v n)) = weight n"
  by (auto simp: dispatch_visit_def weight_visit_field split: node.splits)

lemma dispatch_visit_Element:
  "\<exists>ks'. snd (dispatch_visit v (Element c ot is sp ks)) = Element c ot is sp ks'"
  by (auto simp: dispatch_visit_def visit_field_def split: option.splits list.splits prod.splits)

function walkabout :: "api_visitor \<Rightarrow> node \<Rightarrow> api_visitor \<times> node"
  and walk_children :: "api_visitor \<Rightarrow> node list \<Rightarrow> api_visitor \<times> node list" where
  "walkabout v (Text s) = (v, Text s)"
| "walkabout v (Detached n) = (let (v', n') = walkabout v n in (v', Detached n'))"
| "walkabout v (Element c ot is sp ks) =
     (let (v1, n1) = dispatch_visit v (Element c ot is sp ks);
          (v2, ks2) = walk_children v1 (node_children n1)
      in (dispatch_departure v2 n1, set_children ks2 n1))"
| "walk_children v [] = (v, [])"
| "walk_children v (k # ks) =
     (if live k then
        (let (v1, k1) = walkabout v k; (v2, ks2) = walk_children v1 ks in (v2, k1 # ks2))
      else (let (v2, ks2) = walk_children v ks in (v2, k # ks2)))"
  by pat_completeness auto
termination
proof (relation "inv_image (less_than <*lex*> less_than)
    (\<lambda>x. case x of
       Inl (v, n) \<Rightarrow> (weight n, size n)
     | Inr (v, ks) \<Rightarrow> (sum_list (map weight ks), size_list size ks))", goal_cases)
  case 1
  show ?case by (intro wf_inv_image wf_lex_prod wf_less_than)
next
  case (2 v n)
  then show ?case by simp
next
  case (3 v c ot "is" sp ks x xa y)
  from 3 have y: "y = snd (dispatch_visit v (Element c ot is sp ks))"
    by (metis snd_conv)
  have "weight y = weight (Element c ot is sp ks)"
    unfolding y by (rule weight_dispatch_visit)
  moreover obtain ks' where "y = Element c ot is sp ks'"
    unfolding y using dispatch_visit_Element [of v c ot "is" sp ks] by auto
  ultimately show ?case by (simp add: node_children_def)
next
  case (4 v k ks)
  have "ks = [] \<or> 0 < sum_list (map weight ks)"
    using weight_pos by (cases ks) (auto simp: add_pos_nonneg)
  then show ?case by auto
next
  case (5 v k ks x xa y)
  have "0 < weight k" by (rule weight_pos)
  then show ?case by simp
next
  case (6 v k ks)
  have "0 < weight k" by (rule weight_pos)
  then show ?case by simp
qed


section \<open>The visitor of the code blocks\<close>

text \<open>\<^verbatim>\<open>CodeBlockVisitor\<close>: \<^verbatim>\<open>visit_literal_block\<close> appends the text of the block.\<close>

fun code_walkabout :: "ustring list \<Rightarrow> node \<Rightarrow> ustring list"
  and code_walk_children :: "ustring list \<Rightarrow> node list \<Rightarrow> ustring list" where
  "code_walkabout code_blocks (Text s) = code_blocks"
| "code_walkabout code_blocks (Detached n) = code_walkabout code_blocks n"
| "code_walkabout code_blocks (Element c ot is sp ks) =
     code_walk_children
       (if c = LiteralBlock then code_blocks @ [astext (Element c ot is sp ks)] else code_blocks) ks"
| "code_walk_children code_blocks [] = code_blocks"
| "code_walk_children code_blocks (k # ks) =
     code_walk_children (if live k then code_walkabout code_blocks k else code_blocks) ks"

section \<open>The builder: collecting\<close>

text \<open>
  \<^verbatim>\<open>write_doc\<close> is called with the name of a document and its tree; it asks the
  environment for the path of the source file and reads the suffix of that path.
  \<open>source_suffix\<close> is that suffix, \<^verbatim>\<open>Path(self.env.doc2path(docname, base=True)).suffix\<close>.
\<close>

record document =
  docname :: ustring
  source_suffix :: ustring
  doctree :: node

definition write_doc :: "builder \<Rightarrow> document \<Rightarrow> builder" where
  "write_doc b d =
     (let (api, tree) =
            (if contains (ustr ''reference/python'') (docname d)
             then (let (v, t) = walkabout \<lparr>data = [], current_class = None\<rparr> (doctree d)
                   in (data v, t))
             else ([], doctree d));
          b1 = (if api \<noteq> [] then b\<lparr>all_api_classes := all_api_classes b @ api\<rparr> else b);
          blocks =
            (if source_suffix d \<in> set [ustr ''.ipynb'', ustr ''.md'']
             then code_walkabout [] tree else [])
      in (if blocks \<noteq> []
          then b1\<lparr>all_code_blocks := AList.update (docname d) blocks (all_code_blocks b1)\<rparr>
          else b1))"

text \<open>A build: \<^verbatim>\<open>init\<close>, \<^verbatim>\<open>write_doc\<close> for each document, \<^verbatim>\<open>finish\<close>.\<close>

definition build :: "re_lib \<Rightarrow> document list \<Rightarrow> py_error + api_record list" where
  "build lib docs = finish lib (foldl write_doc init docs)"

section \<open>Notions of the proofs\<close>

text \<open>
  The three loops of \<^verbatim>\<open>finish\<close> run through the triples (code block, short name, position)
  in this order; \<open>link_step\<close> is the body of the innermost loop.
\<close>

definition link_steps :: "(ustring \<times> nat) list \<Rightarrow> (ustring \<times> ustring list) list \<Rightarrow> (ustring \<times> ustring \<times> nat) list" where
  "link_steps cmap blocks =
     concat (map (\<lambda>(dn, cbs). concat (map (\<lambda>code. map (Pair code) cmap) cbs)) blocks)"

definition link_step :: "re_lib \<Rightarrow> ustring \<times> ustring \<times> nat \<Rightarrow> api_record list \<Rightarrow> py_error + api_record list" where
  "link_step lib = (\<lambda>(code, entry). link_class lib code entry)"

text \<open>\<open>i\<close> is the last position of \<open>recs\<close> whose class has the short name \<open>S\<close>.\<close>

definition last_with :: "api_record list \<Rightarrow> ustring \<Rightarrow> nat \<Rightarrow> bool" where
  "last_with recs S i \<longleftrightarrow>
     i < length recs \<and> split_last (class_name (recs ! i)) = S \<and>
     (\<forall>j. i < j \<and> j < length recs \<longrightarrow> split_last (class_name (recs ! j)) \<noteq> S)"

text \<open>\<open>b\<close> is \<open>a\<close> with examples appended: the same records in the same order, every field
  but \<open>examples\<close> as it was, and the examples of \<open>a\<close> first.\<close>

definition extends :: "api_record list \<Rightarrow> api_record list \<Rightarrow> bool" where
  "extends a b =
     (length b = length a \<and>
      (\<forall>j<length a. \<exists>new. b ! j = (a ! j)\<lparr>examples := examples (a ! j) @ new\<rparr>))"

text \<open>
  The words of the specification: the short name \<open>S\<close> occurs in the block \<open>B\<close> between two
  word boundaries. \<open>pre\<close> is the text before the occurrence and \<open>post\<close> the text after it.
\<close>

definition whole_word_in :: "re_lib \<Rightarrow> ustring \<Rightarrow> ustring \<Rightarrow> bool" where
  "whole_word_in lib S B =
     (\<exists>pre post. B = pre @ S @ post \<and>
        at_boundary lib (last_opt None pre) (head_opt (S @ post)) \<and>
        at_boundary lib (last_opt None (pre @ S)) (head_opt post))"

text \<open>
  What a visit or a walk of the API visitor does to \<open>data\<close>: \<open>d'\<close> is \<open>d\<close> with parameters
  appended to its records and with new records at its end. The records of \<open>d\<close> keep their
  positions, and a new record has no example.
\<close>

definition collects :: "api_record list \<Rightarrow> api_record list \<Rightarrow> bool" where
  "collects d d' =
     (length d \<le> length d' \<and>
      (\<forall>i<length d. \<exists>ps. d' ! i = (d ! i)\<lparr>parameters := parameters (d ! i) @ ps\<rparr>) \<and>
      (\<forall>i. length d \<le> i \<and> i < length d' \<longrightarrow> examples (d' ! i) = []))"

text \<open>
  The two passes of \<^verbatim>\<open>write_doc\<close> over one document: the walk of a new API visitor, the
  records it hands over, and the code blocks. The code visitor walks the tree the API
  visitor has left behind, when both run.
\<close>

definition doc_visit :: "document \<Rightarrow> api_visitor \<times> node" where
  "doc_visit d = walkabout \<lparr>data = [], current_class = None\<rparr> (doctree d)"

definition doc_api :: "document \<Rightarrow> api_record list" where
  "doc_api d =
     (if contains (ustr ''reference/python'') (docname d) then data (fst (doc_visit d)) else [])"

definition doc_blocks :: "document \<Rightarrow> ustring list" where
  "doc_blocks d =
     (if source_suffix d \<in> {ustr ''.ipynb'', ustr ''.md''}
      then code_walkabout []
        (if contains (ustr ''reference/python'') (docname d) then snd (doc_visit d) else doctree d)
      else [])"


text \<open>
  The class descriptions of a tree in the order of a walk: a node before the nodes below
  it, the children of a node from left to right, removed nodes left out. \<open>own_name\<close> is
  the class name \<^verbatim>\<open>visit_desc\<close> gives to the record of a node, if it makes one.
\<close>

definition own_name :: "node \<Rightarrow> ustring list" where
  "own_name n =
     (case n of
        Element c ot is sp ks \<Rightarrow>
          if c = Desc \<and> ot = Some (ustr ''class'') then
            (case first (traverse DescSignature n) of
               None \<Rightarrow> []
             | Some (p, s) \<Rightarrow> [if get_ids s \<noteq> [] then hd (get_ids s) else ustr ''UnknownClass''])
          else []
      | _ \<Rightarrow> [])"

fun class_names :: "node \<Rightarrow> ustring list"
  and class_names_children :: "node list \<Rightarrow> ustring list" where
  "class_names (Text s) = []"
| "class_names (Detached n) = class_names n"
| "class_names (Element c ot is sp ks) = own_name (Element c ot is sp ks) @ class_names_children ks"
| "class_names_children [] = []"
| "class_names_children (k # ks) = (if live k then class_names k else []) @ class_names_children ks"

text \<open>
  \<^verbatim>\<open>visit_field\<close> removes strong and emphasis nodes from the tree, with all they contain. A
  tree is \<open>tidy\<close> when none of them contains a class description or a signature, so that
  no removal takes one away from the walk; strong and emphasis nodes are inline nodes,
  made of text and of inline nodes. \<open>bare\<close>: no class description and no signature at all.
\<close>

fun bare :: "node \<Rightarrow> bool" where
  "bare (Text s) = True"
| "bare (Element c ot is sp ks) = (c \<noteq> Desc \<and> c \<noteq> DescSignature \<and> list_all bare ks)"
| "bare (Detached n) = bare n"

fun tidy :: "node \<Rightarrow> bool" where
  "tidy (Text s) = True"
| "tidy (Element c ot is sp ks) =
     (if c = Strong \<or> c = Emphasis then list_all bare ks else list_all tidy ks)"
| "tidy (Detached n) = bare n"

text \<open>
  The identifiers of the signature nodes of a tree, and what two nodes must share for one
  to take the place of the other among the children of a node without a change to the
  class names of the walk.
\<close>

definition sig_ids :: "node \<Rightarrow> ustring list list" where
  "sig_ids n = map (\<lambda>(p, s). get_ids s) (traverse DescSignature n)"

definition part :: "node \<Rightarrow> ustring list \<times> ustring list list" where
  "part k = (if live k then (class_names k, sig_ids k) else ([], []))"

definition swaps :: "node \<Rightarrow> node \<Rightarrow> bool" where
  "swaps k k' \<longleftrightarrow> part k' = part k \<and> tidy k' \<and> (bare k \<longrightarrow> bare k')"

definition inline :: "node \<Rightarrow> bool" where
  "inline m = (case m of Element c ot is sp ks \<Rightarrow> c = Strong \<or> c = Emphasis | _ \<Rightarrow> False)"





section \<open>Concrete builds\<close>

text \<open>
  The examples below are ASCII text and their short names are plain, so they consult
  neither field of the library parameter; \<open>ascii_lib\<close> fills the two fields, with values
  that no result below depends on.
\<close>

definition ascii_lib :: re_lib where
  "ascii_lib = \<lparr>uni_word = (\<lambda>c. False), other_search = (\<lambda>pattern text. Inr False)\<rparr>"

definition new_class :: "ustring \<Rightarrow> ustring list \<Rightarrow> api_record" where
  "new_class n ex = \<lparr>class_name = n, signature = [], description = [], parameters = [], examples = ex\<rparr>"

definition ex_builder :: builder where
  "ex_builder =
     \<lparr>all_api_classes =
        [new_class (ustr ''foo.Bar'') [], new_class (ustr ''baz.Bar'') [], new_class (ustr ''pkg.Agent'') []],
      all_code_blocks =
        [(ustr ''guide/a'', [ustr ''x = Bar()'', ustr ''AssistantAgent()'', ustr ''a = Agent(); b = Agent()'']),
         (ustr ''guide/b'', [ustr ''x = Bar()''])]\<rparr>"

definition ex_linked :: "api_record list" where
  "ex_linked =
     [new_class (ustr ''foo.Bar'') [], new_class (ustr ''baz.Bar'') [ustr ''x = Bar()''],
      new_class (ustr ''pkg.Agent'') [ustr ''a = Agent(); b = Agent()'']]"



text \<open>
  Document trees as the host framework builds them. A paragraph, a signature, a strong or
  an emphasis node is a text element (no separator); a container puts a blank line
  between its children; a parameter list writes its children between parentheses.
\<close>

definition inline_form :: text_form where
  "inline_form = \<lparr>text_before = [], child_text_separator = [], text_after = []\<rparr>"

definition block_form :: text_form where
  "block_form = \<lparr>text_before = [], child_text_separator = [10, 10], text_after = []\<rparr>"

definition parameterlist_form :: text_form where
  "parameterlist_form =
     \<lparr>text_before = ustr ''('', child_text_separator = ustr '', '', text_after = ustr '')''\<rparr>"

definition text_el :: "node_class \<Rightarrow> node list \<Rightarrow> node" where
  "text_el c ks = Element c None [] inline_form ks"

definition block_el :: "node_class \<Rightarrow> node list \<Rightarrow> node" where
  "block_el c ks = Element c None [] block_form ks"

definition class_desc :: "ustring list \<Rightarrow> node list \<Rightarrow> node list \<Rightarrow> node" where
  "class_desc names sig content =
     Element Desc (Some (ustr ''class'')) [] block_form
       [Element DescSignature None names inline_form sig, block_el DescContent content]"

definition named_class :: "ustring \<Rightarrow> node list \<Rightarrow> node" where
  "named_class n content = class_desc [n] [Text n] content"

text \<open>A parameter as the host framework writes it: the name in a strong node, the type in
  an emphasis node between parentheses, then the rest of the line.\<close>

definition param_para :: "node list \<Rightarrow> ustring \<Rightarrow> node" where
  "param_para markers rest = text_el Paragraph (markers @ [Text rest])"

definition name_and_type :: "ustring \<Rightarrow> ustring \<Rightarrow> node list" where
  "name_and_type n t =
     [text_el Strong [Text n], Text (ustr '' (''), text_el Emphasis [Text t], Text (ustr '')'')]"

definition param_item :: "ustring \<Rightarrow> ustring \<Rightarrow> ustring \<Rightarrow> node" where
  "param_item n t rest = block_el ListItem [param_para (name_and_type n t) rest]"

definition param_field :: "node list \<Rightarrow> node" where
  "param_field items =
     block_el Field [text_el Other [Text (ustr ''Parameters'')], block_el Other [block_el Other items]]"

definition label :: "string \<Rightarrow> node" where
  "label s = text_el Other [Text (ustr s)]"

text \<open>The scenario of the specification: the class \<^verbatim>\<open>pkg.Widget\<close> on a reference page and
  a code block on two pages of examples.\<close>

definition widget_tree :: node where
  "widget_tree =
     block_el Other
       [class_desc [ustr ''pkg.Widget'']
          [Text (ustr ''class ''), Text (ustr ''pkg.''), Text (ustr ''Widget''),
           Element Other None [] parameterlist_form
             [text_el Other [Text (ustr ''size'')], text_el Other [Text (ustr ''unit'')]]]
          [text_el Paragraph [Text (ustr ''A widget.'')],
           block_el Other
             [param_field [param_item (ustr ''size'') (ustr ''int'') ([32, 8211] @ ustr '' the size'')]]]]"

definition example_tree :: node where
  "example_tree =
     block_el Other
       [text_el Paragraph [Text (ustr ''Use it:'')],
        text_el LiteralBlock [Text (ustr ''w = Widget(size=3); Widget()'')]]"

definition widget_docs :: "document list" where
  "widget_docs =
     [\<lparr>docname = ustr ''reference/python/widget'', source_suffix = ustr ''.rst'', doctree = widget_tree\<rparr>,
      \<lparr>docname = ustr ''guide/first'', source_suffix = ustr ''.md'', doctree = example_tree\<rparr>,
      \<lparr>docname = ustr ''guide/second'', source_suffix = ustr ''.ipynb'', doctree = example_tree\<rparr>]"

definition size_param :: "ustring \<Rightarrow> param_record" where
  "size_param d = \<lparr>p_name = ustr ''size'', p_type = ustr ''int'', p_description = d\<rparr>"

definition widget_record :: "ustring list \<Rightarrow> api_record" where
  "widget_record ex =
     \<lparr>class_name = ustr ''pkg.Widget'', signature = ustr ''class pkg.Widget(size, unit)'',
       description = ustr ''A widget.'',
       parameters = [size_param (ustr ''the size'')],
       examples = ex\<rparr>"

text \<open>Classes on two reference pages, one nested in another, and on a page that is not a
  reference page.\<close>

definition order_docs :: "document list" where
  "order_docs =
     [\<lparr>docname = ustr ''reference/python/one'', source_suffix = ustr ''.rst'',
       doctree = block_el Other
         [named_class (ustr ''pkg.Zeta'') [named_class (ustr ''pkg.Alpha'') []],
          named_class (ustr ''pkg.Mid'') []]\<rparr>,
      \<lparr>docname = ustr ''guide/intro'', source_suffix = ustr ''.rst'',
       doctree = block_el Other [named_class (ustr ''pkg.Hidden'') []]\<rparr>,
      \<lparr>docname = ustr ''reference/python/two'', source_suffix = ustr ''.rst'',
       doctree = block_el Other [named_class (ustr ''pkg.Beta'') []]\<rparr>]"

definition bare_record :: "ustring \<Rightarrow> api_record" where
  "bare_record n =
     \<lparr>class_name = n, signature = n, description = [], parameters = [], examples = []\<rparr>"

definition order_out :: "api_record list" where
  "order_out =
     [bare_record (ustr ''pkg.Zeta''), bare_record (ustr ''pkg.Alpha''),
      bare_record (ustr ''pkg.Mid''), bare_record (ustr ''pkg.Beta'')]"

text \<open>A class description without a signature, and one whose signature has no identifier.\<close>

definition no_signature_desc :: node where
  "no_signature_desc =
     Element Desc (Some (ustr ''class'')) [] block_form
       [block_el DescContent [text_el Paragraph [Text (ustr ''Text only.'')]]]"

definition anonymous_desc :: node where
  "anonymous_desc = class_desc [] [Text (ustr ''class Thing'')] []"

text \<open>One tree with a class and a code block, under four document names and suffixes.\<close>

definition both_tree :: node where
  "both_tree =
     block_el Other [named_class (ustr ''pkg.Tool'') [], text_el LiteralBlock [Text (ustr ''Tool()'')]]"

definition pass_doc :: "string \<Rightarrow> string \<Rightarrow> document" where
  "pass_doc dn sfx = \<lparr>docname = ustr dn, source_suffix = ustr sfx, doctree = both_tree\<rparr>"

text \<open>A visitor with a class open, and the body of a field: a parameter with a name and a
  type, one with a type only, one with a name only, and an item without a paragraph.\<close>

definition open_visitor :: api_visitor where
  "open_visitor = \<lparr>data = [bare_record (ustr ''pkg.Widget'')], current_class = Some 0\<rparr>"


text \<open>The definitions an evaluation unfolds.\<close>

lemmas text_defs = ustr_def strip_def py_isspace_def find_char_def first_def split_last_def
lemmas tree_defs = inline_form_def block_form_def parameterlist_form_def
  text_el_def block_el_def class_desc_def named_class_def param_item_def param_para_def
  name_and_type_def param_field_def label_def
  get_objtype_def get_ids_def node_children_def set_children_def live_children_def
lemmas visit_defs = visit_desc_def depart_desc_def read_param_def visit_list_item_def
  visit_list_items_def add_parameters_def visit_field_def dispatch_visit_def
  dispatch_departure_def Let_def enumerate_eq_zip
lemmas link_defs = finish_def class_map_def link_doc_def link_code_def link_class_def
  link_example_def re_search_word_def plain_def special_def match_here_def at_boundary_def
  word_side_def head_opt_def last_opt_def is_word_def ascii_word_def ascii_lib_def

section \<open>Loops that may raise\<close>

lemma fold_err_append:
  "fold_err f (xs @ ys) s = (case fold_err f xs s of Inl e \<Rightarrow> Inl e | Inr s' \<Rightarrow> fold_err f ys s')"
  by (induction xs arbitrary: s) (auto split: sum.splits)

lemma fold_err_concat:
  "fold_err (\<lambda>x. fold_err g (h x)) xs s = fold_err g (concat (map h xs)) s"
  by (induction xs arbitrary: s) (auto simp: fold_err_append split: sum.splits)

lemma fold_err_invariant:
  assumes "fold_err f xs s = Inr s'" and "P s"
    and "\<And>x a b. x \<in> set xs \<Longrightarrow> P a \<Longrightarrow> f x a = Inr b \<Longrightarrow> P b"
  shows "P s'"
  using assms
proof (induction xs arbitrary: s)
  case Nil
  then show ?case by simp
next
  case (Cons x xs)
  from Cons.prems(1) obtain s1 where s1: "f x s = Inr s1" "fold_err f xs s1 = Inr s'"
    by (auto split: sum.splits)
  have "P s1" using Cons.prems(3) [of x s s1] Cons.prems(2) s1(1) by simp
  moreover have "\<And>y a b. y \<in> set xs \<Longrightarrow> P a \<Longrightarrow> f y a = Inr b \<Longrightarrow> P b"
    by (rule Cons.prems(3) [OF list.set_intros(2)])
  ultimately show ?case using Cons.IH [OF s1(2)] by blast
qed

lemma fold_err_mem:
  assumes "fold_err f xs s = Inr s'" and "x \<in> set xs"
    and step: "\<And>y a b. y \<in> set xs \<Longrightarrow> f y a = Inr b \<Longrightarrow> R a b"
    and refl: "\<And>a. R a a" and trans: "\<And>a b c. R a b \<Longrightarrow> R b c \<Longrightarrow> R a c"
  shows "\<exists>a b. R s a \<and> f x a = Inr b \<and> R b s'"
  using assms(1,2,3)
proof (induction xs arbitrary: s)
  case Nil
  then show ?case by simp
next
  case (Cons y ys)
  from Cons.prems(1) obtain s1 where s1: "f y s = Inr s1" "fold_err f ys s1 = Inr s'"
    by (auto split: sum.splits)
  have R1: "R s s1" using Cons.prems(3) [of y s s1] s1(1) by simp
  have step': "\<And>z a b. z \<in> set ys \<Longrightarrow> f z a = Inr b \<Longrightarrow> R a b"
    by (rule Cons.prems(3) [OF list.set_intros(2)])
  have Rrest: "R s1 s'"
  proof (rule fold_err_invariant [OF s1(2), where P = "R s1"])
    show "R s1 s1" by (rule refl)
  next
    fix z a b assume "z \<in> set ys" "R s1 a" "f z a = Inr b"
    then show "R s1 b" using step' trans by blast
  qed
  show ?case
  proof (cases "x = y")
    case True
    then show ?thesis using s1(1) Rrest refl by blast
  next
    case False
    then have "x \<in> set ys" using Cons.prems(2) by simp
    have "\<exists>a b. R s1 a \<and> f x a = Inr b \<and> R b s'"
      by (rule Cons.IH [OF s1(2) \<open>x \<in> set ys\<close>]) (rule step')
    then obtain a b where "R s1 a" "f x a = Inr b" "R b s'" by auto
    then show ?thesis using R1 trans by blast
  qed
qed

lemma fold_err_fixed:
  "(\<And>x. x \<in> set xs \<Longrightarrow> f x s = Inr s) \<Longrightarrow> fold_err f xs s = Inr s"
  by (induction xs) auto

lemma finish_flat:
  "finish lib b =
     fold_err (link_step lib) (link_steps (class_map (all_api_classes b)) (all_code_blocks b)) (all_api_classes b)"
proof -
  have 1: "link_code lib cmap = (\<lambda>code. fold_err (link_step lib) (map (Pair code) cmap))" for cmap
  proof (intro ext)
    fix code recs
    show "link_code lib cmap code recs = fold_err (link_step lib) (map (Pair code) cmap) recs"
      unfolding link_code_def
      by (induction cmap arbitrary: recs) (auto simp: link_step_def split: sum.splits)
  qed
  have 2: "link_doc lib cmap = (\<lambda>d. fold_err (link_step lib) (case d of (dn, cbs) \<Rightarrow> concat (map (\<lambda>code. map (Pair code) cmap) cbs)))" for cmap
    by (intro ext) (simp add: link_doc_def 1 fold_err_concat split: prod.splits)
  show ?thesis
    by (simp add: finish_def link_steps_def 2 fold_err_concat case_prod_unfold)
qed

lemma link_steps_mem:
  "(code, sn, i) \<in> set (link_steps cmap blocks) \<longleftrightarrow>
     (sn, i) \<in> set cmap \<and> (\<exists>dn cbs. (dn, cbs) \<in> set blocks \<and> code \<in> set cbs)"
  by (auto simp: link_steps_def)

section \<open>The lookup of short names\<close>

lemma class_map_snoc:
  "class_map (recs @ [r]) = AList.update (split_last (class_name r)) (length recs) (class_map recs)"
  by (simp add: class_map_def enumerate_append_eq)

lemma last_with_snoc_same:
  "split_last (class_name r) = S \<Longrightarrow> last_with (recs @ [r]) S i \<longleftrightarrow> i = length recs"
proof
  assume S: "split_last (class_name r) = S" and l: "last_with (recs @ [r]) S i"
  show "i = length recs"
  proof (rule ccontr)
    assume "i \<noteq> length recs"
    with l have "i < length recs" by (simp add: last_with_def)
    then have i: "i < length recs" .
    from l have a: "\<And>j. i < j \<Longrightarrow> j < length (recs @ [r]) \<Longrightarrow>
        split_last (class_name ((recs @ [r]) ! j)) \<noteq> S"
      unfolding last_with_def by blast
    have "split_last (class_name ((recs @ [r]) ! length recs)) \<noteq> S"
      by (rule a) (use i in simp_all)
    with S show False by simp
  qed
next
  assume "split_last (class_name r) = S" "i = length recs"
  then show "last_with (recs @ [r]) S i" by (auto simp: last_with_def)
qed

lemma last_with_snoc_other:
  assumes "split_last (class_name r) \<noteq> S"
  shows "last_with (recs @ [r]) S i \<longleftrightarrow> last_with recs S i"
proof
  assume l: "last_with (recs @ [r]) S i"
  have "i \<noteq> length recs" using l assms by (auto simp: last_with_def)
  with l have i: "i < length recs" by (simp add: last_with_def)
  show "last_with recs S i"
    unfolding last_with_def
  proof (intro conjI allI impI)
    show "i < length recs" by (rule i)
    show "split_last (class_name (recs ! i)) = S" using l i by (simp add: last_with_def nth_append)
    fix j assume j: "i < j \<and> j < length recs"
    then have "split_last (class_name ((recs @ [r]) ! j)) \<noteq> S" using l by (simp add: last_with_def)
    then show "split_last (class_name (recs ! j)) \<noteq> S" using j by (simp add: nth_append)
  qed
next
  assume l: "last_with recs S i"
  show "last_with (recs @ [r]) S i"
    unfolding last_with_def
  proof (intro conjI allI impI)
    show "i < length (recs @ [r])" using l by (simp add: last_with_def)
    show "split_last (class_name ((recs @ [r]) ! i)) = S" using l by (simp add: last_with_def nth_append)
    fix j assume j: "i < j \<and> j < length (recs @ [r])"
    show "split_last (class_name ((recs @ [r]) ! j)) \<noteq> S"
    proof (cases "j < length recs")
      case True
      then show ?thesis using l j by (simp add: last_with_def nth_append)
    next
      case False
      then have "j = length recs" using j by simp
      then show ?thesis using assms by simp
    qed
  qed
qed

lemma map_of_class_map:
  "map_of (class_map recs) S = Some i \<longleftrightarrow> last_with recs S i"
proof (induction recs rule: rev_induct)
  case Nil
  then show ?case by (simp add: class_map_def last_with_def)
next
  case (snoc r recs)
  show ?case
  proof (cases "split_last (class_name r) = S")
    case True
    have "map_of (class_map (recs @ [r])) S = Some (length recs)"
      using True by (simp add: class_map_snoc update_conv')
    then show ?thesis using last_with_snoc_same [OF True] by auto
  next
    case False
    have "map_of (class_map (recs @ [r])) S = map_of (class_map recs) S"
      using False by (simp add: class_map_snoc update_conv')
    then show ?thesis using last_with_snoc_other [OF False] snoc by simp
  qed
qed

lemma distinct_class_map: "distinct (map fst (class_map recs))"
proof (induction recs rule: rev_induct)
  case Nil
  then show ?case by (simp add: class_map_def)
next
  case (snoc r recs)
  then show ?case by (simp only: class_map_snoc distinct_update)
qed

lemma class_map_mem:
  "(S, i) \<in> set (class_map recs) \<longleftrightarrow> last_with recs S i"
  using map_of_eq_Some_iff [OF distinct_class_map, of recs S i] map_of_class_map [of recs S i]
  by blast

lemma class_map_names:
  "map class_name a = map class_name b \<Longrightarrow> class_map a = class_map b"
proof (induction a arbitrary: b rule: rev_induct)
  case Nil
  then show ?case by simp
next
  case (snoc r a)
  then obtain b' r' where b: "b = b' @ [r']"
    by (cases b rule: rev_cases) auto
  with snoc.prems have eq: "map class_name a = map class_name b'" "class_name r = class_name r'"
    by auto
  from eq(1) have "length a = length b'" by (metis length_map)
  then show ?case using snoc.IH [OF eq(1)] b eq(2) by (simp add: class_map_snoc)
qed

section \<open>What linking changes\<close>

lemma extends_refl: "extends a a"
  by (auto simp: extends_def intro: exI [of _ "[]"])

lemma extends_trans: "extends a b \<Longrightarrow> extends b c \<Longrightarrow> extends a c"
  unfolding extends_def
proof (intro conjI allI impI)
  assume ab: "length b = length a \<and> (\<forall>j<length a. \<exists>new. b ! j = (a ! j)\<lparr>examples := examples (a ! j) @ new\<rparr>)"
    and bc: "length c = length b \<and> (\<forall>j<length b. \<exists>new. c ! j = (b ! j)\<lparr>examples := examples (b ! j) @ new\<rparr>)"
  show "length c = length a" using ab bc by simp
  fix j assume j: "j < length a"
  from ab j obtain n1 where n1: "b ! j = (a ! j)\<lparr>examples := examples (a ! j) @ n1\<rparr>" by blast
  from bc ab j obtain n2 where n2: "c ! j = (b ! j)\<lparr>examples := examples (b ! j) @ n2\<rparr>" by auto
  show "\<exists>new. c ! j = (a ! j)\<lparr>examples := examples (a ! j) @ new\<rparr>"
    by (rule exI [of _ "n1 @ n2"]) (simp add: n1 n2)
qed

lemma extends_link_example: "extends a (link_example code i a)"
proof -
  have "\<exists>new. (a[i := (a ! i)\<lparr>examples := examples (a ! i) @ [code]\<rparr>]) ! j = (a ! j)\<lparr>examples := examples (a ! j) @ new\<rparr>"
    if "j < length a" for j
  proof (cases "j = i")
    case True
    then show ?thesis using that by (intro exI [of _ "[code]"]) simp
  next
    case False
    then show ?thesis by (intro exI [of _ "[]"]) simp
  qed
  then show ?thesis
    by (auto simp: link_example_def extends_def intro: exI [of _ "[]"])
qed

lemma link_step_cases:
  assumes "link_step lib (code, sn, i) a = Inr b"
  obtains hit where "re_search_word lib sn code = Inr hit"
    and "b = (if hit then link_example code i a else a)"
  using assms by (auto simp: link_step_def link_class_def split: sum.splits)

lemma extends_link_step: "link_step lib x a = Inr b \<Longrightarrow> extends a b"
proof -
  assume st: "link_step lib x a = Inr b"
  obtain code sn i where x: "x = (code, sn, i)" by (cases x)
  from st [unfolded x] show ?thesis
    by (rule link_step_cases) (auto simp: extends_refl extends_link_example)
qed

lemma finish_extends:
  assumes "finish lib b = Inr out"
  shows "extends (all_api_classes b) out"
  by (rule fold_err_invariant [OF assms [unfolded finish_flat], where P = "extends (all_api_classes b)"])
    (auto intro: extends_refl extends_trans extends_link_step)

lemma class_map_index: "(sn, i) \<in> set (class_map recs) \<Longrightarrow> i < length recs"
  by (simp add: class_map_mem last_with_def)

lemma extends_examples:
  "extends a b \<Longrightarrow> i < length a \<Longrightarrow> \<exists>new. examples (b ! i) = examples (a ! i) @ new"
proof -
  assume "extends a b" "i < length a"
  then obtain new where "b ! i = (a ! i)\<lparr>examples := examples (a ! i) @ new\<rparr>"
    unfolding extends_def by blast
  then have "examples (b ! i) = examples (a ! i) @ new" by simp
  then show ?thesis ..
qed

lemma extends_length: "extends a b \<Longrightarrow> length b = length a"
  by (simp add: extends_def)

lemma extends_fields:
  assumes "extends a b" "i < length a"
  shows "class_name (b ! i) = class_name (a ! i)" "signature (b ! i) = signature (a ! i)"
    "description (b ! i) = description (a ! i)" "parameters (b ! i) = parameters (a ! i)"
proof -
  from assms obtain new where "b ! i = (a ! i)\<lparr>examples := examples (a ! i) @ new\<rparr>"
    unfolding extends_def by blast
  then show "class_name (b ! i) = class_name (a ! i)" "signature (b ! i) = signature (a ! i)"
    "description (b ! i) = description (a ! i)" "parameters (b ! i) = parameters (a ! i)"
    by simp_all
qed

lemma link_example_mem: "i < length a \<Longrightarrow> code \<in> set (examples (link_example code i a ! i))"
  by (simp add: link_example_def)

lemma link_example_distinct:
  assumes "\<forall>r\<in>set a. distinct (examples r)"
  shows "\<forall>r\<in>set (link_example code i a). distinct (examples r)"
proof (cases "code \<in> set (examples (a ! i)) \<or> \<not> i < length a")
  case True
  then show ?thesis using assms by (auto simp: link_example_def list_update_beyond)
next
  case False
  then have i: "i < length a" and new: "code \<notin> set (examples (a ! i))" by auto
  have "distinct (examples (a ! i))" using assms i by simp
  then have d: "distinct (examples ((a ! i)\<lparr>examples := examples (a ! i) @ [code]\<rparr>))"
    using new by simp
  show ?thesis
  proof
    fix r assume "r \<in> set (link_example code i a)"
    then have "r \<in> insert ((a ! i)\<lparr>examples := examples (a ! i) @ [code]\<rparr>) (set a)"
      using new set_update_subset_insert [of a i] by (auto simp: link_example_def)
    then show "distinct (examples r)" using d assms by auto
  qed
qed

lemma finish_distinct:
  assumes "finish lib b = Inr out" and "\<forall>r\<in>set (all_api_classes b). distinct (examples r)"
  shows "\<forall>r\<in>set out. distinct (examples r)"
proof (rule fold_err_invariant [OF assms(1) [unfolded finish_flat],
      where P = "\<lambda>s. \<forall>r\<in>set s. distinct (examples r)"])
  show "\<forall>r\<in>set (all_api_classes b). distinct (examples r)" by (rule assms(2))
next
  fix x a c
  assume a: "\<forall>r\<in>set a. distinct (examples r)" and st: "link_step lib x a = Inr c"
  obtain code sn i where x: "x = (code, sn, i)" by (cases x)
  from st [unfolded x] show "\<forall>r\<in>set c. distinct (examples r)"
  proof (rule link_step_cases)
    fix hit assume "c = (if hit then link_example code i a else a)"
    then show ?thesis using a link_example_distinct [OF a] by simp
  qed
qed

lemma finish_hits:
  assumes fin: "finish lib b = Inr out"
    and mem: "(code, sn, i) \<in> set (link_steps (class_map (all_api_classes b)) (all_code_blocks b))"
  shows "\<exists>hit. re_search_word lib sn code = Inr hit \<and> (hit \<longrightarrow> code \<in> set (examples (out ! i)))"
proof -
  have i: "i < length (all_api_classes b)"
    using mem by (auto simp: link_steps_mem intro: class_map_index)
  have "\<exists>a c. extends (all_api_classes b) a \<and> link_step lib (code, sn, i) a = Inr c \<and> extends c out"
    by (rule fold_err_mem [OF fin [unfolded finish_flat] mem])
      (auto intro: extends_refl extends_trans extends_link_step)
  then obtain a c where a: "extends (all_api_classes b) a"
    and st: "link_step lib (code, sn, i) a = Inr c" and c: "extends c out" by blast
  have ia: "i < length a" using a i by (simp add: extends_length)
  from st show ?thesis
  proof (rule link_step_cases)
    fix hit assume h: "re_search_word lib sn code = Inr hit"
      and ceq: "c = (if hit then link_example code i a else a)"
    have "code \<in> set (examples (out ! i))" if hit
    proof -
      from that ceq have "code \<in> set (examples (c ! i))" using link_example_mem [OF ia] by simp
      moreover have "i < length c" using ceq ia by (simp add: link_example_def)
      ultimately show ?thesis using extends_examples [OF c, of i] by auto
    qed
    with h show ?thesis by blast
  qed
qed

lemma finish_only_hits:
  assumes fin: "finish lib b = Inr out"
    and i: "i < length (all_api_classes b)"
    and mem: "code \<in> set (examples (out ! i))"
  shows "code \<in> set (examples (all_api_classes b ! i)) \<or>
    (\<exists>sn. (code, sn, i) \<in> set (link_steps (class_map (all_api_classes b)) (all_code_blocks b)) \<and>
       re_search_word lib sn code = Inr True)"
proof -
  let ?recs = "all_api_classes b"
  let ?steps = "link_steps (class_map ?recs) (all_code_blocks b)"
  let ?P = "\<lambda>s. length s = length ?recs \<and> (\<forall>code. code \<in> set (examples (s ! i)) \<longrightarrow>
      code \<in> set (examples (?recs ! i)) \<or>
      (\<exists>sn. (code, sn, i) \<in> set ?steps \<and> re_search_word lib sn code = Inr True))"
  have "?P out"
  proof (rule fold_err_invariant [OF fin [unfolded finish_flat], where P = ?P])
    show "?P ?recs" by simp
  next
    fix x a c
    assume x: "x \<in> set ?steps" and a: "?P a" and st: "link_step lib x a = Inr c"
    obtain code' sn' i' where xe: "x = (code', sn', i')" by (cases x)
    from st [unfolded xe] show "?P c"
    proof (rule link_step_cases)
      fix hit assume h: "re_search_word lib sn' code' = Inr hit"
        and ceq: "c = (if hit then link_example code' i' a else a)"
      show ?thesis
      proof (cases "hit \<and> i' = i \<and> code' \<notin> set (examples (a ! i))")
        case True
        then have "examples (c ! i) = examples (a ! i) @ [code']"
          using ceq a i by (simp add: link_example_def)
        moreover have "(code', sn', i) \<in> set ?steps \<and> re_search_word lib sn' code' = Inr True"
          using x xe True h by simp
        moreover have "length c = length ?recs" using ceq a by (simp add: link_example_def)
        ultimately show ?thesis using a by auto
      next
        case False
        then have "examples (c ! i) = examples (a ! i)"
          using ceq by (cases "i' = i") (auto simp: link_example_def)
        moreover have "length c = length ?recs" using ceq a by (simp add: link_example_def)
        ultimately show ?thesis using a by simp
      qed
    qed
  qed
  then show ?thesis using mem by blast
qed

lemma finish_untouched:
  assumes fin: "finish lib b = Inr out"
    and i: "\<forall>sn. (sn, i) \<notin> set (class_map (all_api_classes b))"
  shows "out ! i = all_api_classes b ! i"
proof (rule fold_err_invariant [OF fin [unfolded finish_flat],
      where P = "\<lambda>s. s ! i = all_api_classes b ! i"])
  show "all_api_classes b ! i = all_api_classes b ! i" ..
next
  fix x a c
  assume x: "x \<in> set (link_steps (class_map (all_api_classes b)) (all_code_blocks b))"
    and a: "a ! i = all_api_classes b ! i" and st: "link_step lib x a = Inr c"
  obtain code' sn' i' where xe: "x = (code', sn', i')" by (cases x)
  have "i' \<noteq> i" using x xe i by (auto simp: link_steps_mem)
  from st [unfolded xe] show "c ! i = all_api_classes b ! i"
  proof (rule link_step_cases)
    fix hit assume "c = (if hit then link_example code' i' a else a)"
    then show ?thesis using a \<open>i' \<noteq> i\<close> by (simp add: link_example_def)
  qed
qed

lemma finish_idempotent:
  assumes fin: "finish lib b = Inr out"
  shows "finish lib (b\<lparr>all_api_classes := out\<rparr>) = Inr out"
proof -
  let ?recs = "all_api_classes b"
  have ext: "extends ?recs out" by (rule finish_extends [OF fin])
  have "map class_name out = map class_name ?recs"
    by (rule nth_equalityI) (use ext in \<open>simp_all add: extends_length extends_fields(1)\<close>)
  then have cm: "class_map out = class_map ?recs" by (rule class_map_names)
  have "fold_err (link_step lib) (link_steps (class_map ?recs) (all_code_blocks b)) out = Inr out"
  proof (rule fold_err_fixed)
    fix x assume x: "x \<in> set (link_steps (class_map ?recs) (all_code_blocks b))"
    obtain code sn i where xe: "x = (code, sn, i)" by (cases x)
    from finish_hits [OF fin x [unfolded xe]] obtain hit where
      h: "re_search_word lib sn code = Inr hit" and m: "hit \<longrightarrow> code \<in> set (examples (out ! i))"
      by blast
    show "link_step lib x out = Inr out"
      using h m by (simp add: xe link_step_def link_class_def link_example_def)
  qed
  then show ?thesis by (simp add: finish_flat cm)
qed

section \<open>The pattern of a plain short name\<close>

lemma starts_with_iff: "starts_with S t \<longleftrightarrow> (\<exists>post. t = S @ post)"
  by (induction S t rule: starts_with.induct) auto

lemma last_opt_Cons: "last_opt prev (c # s) = last_opt (Some c) s"
  by (simp add: last_opt_def)

lemma last_opt_append: "last_opt prev (s @ t) = last_opt (last_opt prev s) t"
  by (simp add: last_opt_def)

lemma match_here_iff:
  "match_here lib prev S t \<longleftrightarrow>
     (\<exists>post. t = S @ post \<and> at_boundary lib prev (head_opt (S @ post)) \<and>
        at_boundary lib (last_opt prev S) (head_opt post))"
  by (auto simp: match_here_def starts_with_iff)

lemma search_from_iff:
  "search_from lib prev S t \<longleftrightarrow>
     (\<exists>pre post. t = pre @ S @ post \<and>
        at_boundary lib (last_opt prev pre) (head_opt (S @ post)) \<and>
        at_boundary lib (last_opt prev (pre @ S)) (head_opt post))"
    (is "?L prev t \<longleftrightarrow> ?R prev t")
proof (induction t arbitrary: prev)
  case Nil
  show ?case
    by (auto simp: match_here_iff last_opt_def)
next
  case (Cons c cs)
  have here: "match_here lib prev S (c # cs) \<longleftrightarrow>
      (\<exists>post. c # cs = [] @ S @ post \<and>
        at_boundary lib (last_opt prev []) (head_opt (S @ post)) \<and>
        at_boundary lib (last_opt prev ([] @ S)) (head_opt post))"
    by (simp add: match_here_iff last_opt_def)
  have later: "?R (Some c) cs \<longleftrightarrow>
      (\<exists>pre' post. c # cs = (c # pre') @ S @ post \<and>
        at_boundary lib (last_opt prev (c # pre')) (head_opt (S @ post)) \<and>
        at_boundary lib (last_opt prev ((c # pre') @ S)) (head_opt post))"
    by (simp add: last_opt_Cons)
  show ?case
  proof
    assume "?L prev (c # cs)"
    then consider "match_here lib prev S (c # cs)" | "?R (Some c) cs"
      using Cons.IH by auto
    then show "?R prev (c # cs)"
    proof cases
      case 1
      with here show ?thesis by blast
    next
      case 2
      with later show ?thesis by blast
    qed
  next
    assume "?R prev (c # cs)"
    then obtain pre post where p: "c # cs = pre @ S @ post"
      "at_boundary lib (last_opt prev pre) (head_opt (S @ post))"
      "at_boundary lib (last_opt prev (pre @ S)) (head_opt post)" by blast
    show "?L prev (c # cs)"
    proof (cases pre)
      case Nil
      with p here have "match_here lib prev S (c # cs)" by auto
      then show ?thesis by simp
    next
      case (Cons d pre')
      with p have "d = c" by simp
      with p Cons later have "?R (Some c) cs" by blast
      then show ?thesis using Cons.IH by simp
    qed
  qed
qed

lemma re_search_word_plain:
  "plain S \<Longrightarrow> re_search_word lib S B = Inr (whole_word_in lib S B)"
  by (simp add: re_search_word_def whole_word_in_def search_from_iff)


lemma class_map_short:
  "(sn, i) \<in> set (class_map recs) \<Longrightarrow> i < length recs \<and> sn = split_last (class_name (recs ! i))"
  by (auto simp: class_map_mem last_with_def)


lemma linked_iff_whole_word:
  assumes fin: "finish lib b = Inr out"
    and entry: "(S, i) \<in> set (class_map (all_api_classes b))"
    and S: "plain S"
    and B: "(dn, cbs) \<in> set (all_code_blocks b)" "B \<in> set cbs"
    and fresh: "B \<notin> set (examples (all_api_classes b ! i))"
  shows "B \<in> set (examples (out ! i)) \<longleftrightarrow> whole_word_in lib S B"
proof
  assume "whole_word_in lib S B"
  moreover have "(B, S, i) \<in> set (link_steps (class_map (all_api_classes b)) (all_code_blocks b))"
    using entry B by (auto simp: link_steps_mem)
  ultimately show "B \<in> set (examples (out ! i))"
    using finish_hits [OF fin, of B S i] re_search_word_plain [OF S, of lib B] by auto
next
  assume m: "B \<in> set (examples (out ! i))"
  have i: "i < length (all_api_classes b)" using entry by (rule class_map_index)
  from finish_only_hits [OF fin i m] fresh obtain sn where
    sn: "(B, sn, i) \<in> set (link_steps (class_map (all_api_classes b)) (all_code_blocks b))"
    "re_search_word lib sn B = Inr True" by blast
  then have "(sn, i) \<in> set (class_map (all_api_classes b))" by (simp add: link_steps_mem)
  then have "sn = S" using entry class_map_short by blast
  then show "whole_word_in lib S B"
    using sn(2) re_search_word_plain [OF S, of lib B] by simp
qed

section \<open>What the visitors collect\<close>

lemma collects_refl: "collects d d"
proof -
  have "d ! i = (d ! i)\<lparr>parameters := parameters (d ! i) @ []\<rparr>" for i by simp
  then show ?thesis unfolding collects_def by fastforce
qed

lemma collects_trans:
  assumes ab: "collects a b" and bc: "collects b c"
  shows "collects a c"
  unfolding collects_def
proof (intro conjI allI impI)
  show "length a \<le> length c" using ab bc by (simp add: collects_def)
next
  fix i assume i: "i < length a"
  then have ib: "i < length b" using ab by (simp add: collects_def)
  from ab i obtain p1 where p1: "b ! i = (a ! i)\<lparr>parameters := parameters (a ! i) @ p1\<rparr>"
    unfolding collects_def by blast
  from bc ib obtain p2 where p2: "c ! i = (b ! i)\<lparr>parameters := parameters (b ! i) @ p2\<rparr>"
    unfolding collects_def by blast
  show "\<exists>ps. c ! i = (a ! i)\<lparr>parameters := parameters (a ! i) @ ps\<rparr>"
    by (rule exI [of _ "p1 @ p2"]) (simp add: p1 p2)
next
  fix i assume i: "length a \<le> i \<and> i < length c"
  show "examples (c ! i) = []"
  proof (cases "i < length b")
    case True
    with ab i have e: "examples (b ! i) = []" by (simp add: collects_def)
    from bc True obtain p2 where "c ! i = (b ! i)\<lparr>parameters := parameters (b ! i) @ p2\<rparr>"
      unfolding collects_def by blast
    then show ?thesis using e by simp
  next
    case False
    with bc i show ?thesis by (simp add: collects_def)
  qed
qed

lemma collects_append: "examples r = [] \<Longrightarrow> collects d (d @ [r])"
proof -
  assume r: "examples r = []"
  have "(d @ [r]) ! i = (d ! i)\<lparr>parameters := parameters (d ! i) @ []\<rparr>" if "i < length d" for i
    using that by (simp add: nth_append)
  moreover have "examples ((d @ [r]) ! i) = []" if "length d \<le> i \<and> i < length (d @ [r])" for i
  proof -
    from that have "i = length d" by simp
    then show ?thesis using r by simp
  qed
  ultimately show ?thesis unfolding collects_def by (intro conjI allI impI) (simp, blast, blast)
qed

lemma collects_add_parameters: "collects d (add_parameters cur ps d)"
proof -
  have "\<exists>qs. add_parameters cur ps d ! i = (d ! i)\<lparr>parameters := parameters (d ! i) @ qs\<rparr>"
    if "i < length d" for i
  proof (cases "i = cur")
    case True
    then show ?thesis using that by (intro exI [of _ ps]) (simp add: add_parameters_def)
  next
    case False
    then show ?thesis by (intro exI [of _ "[]"]) (simp add: add_parameters_def)
  qed
  then show ?thesis unfolding collects_def by (auto simp: add_parameters_def)
qed

lemma visit_desc_collects: "collects (data v) (data (visit_desc v n))"
  by (auto simp: visit_desc_def collects_refl intro!: collects_append split: option.splits)

lemma visit_field_data:
  "data (fst (visit_field v n)) = data v \<or>
   (\<exists>cur ps. current_class v = Some cur \<and> data (fst (visit_field v n)) = add_parameters cur ps (data v))"
  by (auto simp: visit_field_def split: option.splits node.splits list.splits prod.splits)

lemma visit_field_collects: "collects (data v) (data (fst (visit_field v n)))"
  using visit_field_data [of v n] by (auto simp: collects_refl collects_add_parameters)

lemma dispatch_visit_collects: "collects (data v) (data (fst (dispatch_visit v n)))"
  by (auto simp: dispatch_visit_def collects_refl visit_desc_collects visit_field_collects split: node.splits)

lemma dispatch_departure_data: "data (dispatch_departure v n) = data v"
  by (auto simp: dispatch_departure_def depart_desc_def split: node.splits)

lemma walkabout_collects:
  "collects (data v) (data (fst (walkabout v n)))"
  "collects (data v) (data (fst (walk_children v ks)))"
proof (induction v n and v ks rule: walkabout_walk_children.induct)
  case (1 v s)
  show ?case by (simp add: collects_refl)
next
  case (2 v n)
  then show ?case by (cases "walkabout v n") simp
next
  case (3 v c ot "is" sp ks)
  obtain v1 n1 where d: "dispatch_visit v (Element c ot is sp ks) = (v1, n1)"
    by (cases "dispatch_visit v (Element c ot is sp ks)")
  obtain v2 ks2 where w: "walk_children v1 (node_children n1) = (v2, ks2)"
    by (cases "walk_children v1 (node_children n1)")
  have "collects (data v) (data v1)"
    using dispatch_visit_collects [of v "Element c ot is sp ks"] d by simp
  moreover have "collects (data v1) (data v2)"
    using 3 [OF d [symmetric] refl] w by simp
  ultimately have "collects (data v) (data v2)" by (rule collects_trans)
  then show ?case using d w by (simp add: dispatch_departure_data)
next
  case (4 v)
  show ?case by (simp add: collects_refl)
next
  case (5 v k ks)
  show ?case
  proof (cases "live k")
    case True
    obtain v1 k1 where a: "walkabout v k = (v1, k1)" by (cases "walkabout v k")
    obtain v2 ks2 where b: "walk_children v1 ks = (v2, ks2)" by (cases "walk_children v1 ks")
    have "collects (data v) (data v1)" using 5(1) [OF True] a by simp
    moreover have "collects (data v1) (data v2)" using 5(2) [OF True a [symmetric] refl] b by simp
    ultimately have "collects (data v) (data v2)" by (rule collects_trans)
    then show ?thesis using True a b by simp
  next
    case False
    then show ?thesis using 5(3) by (cases "walk_children v ks") simp
  qed
qed

lemma write_doc_eq:
  "write_doc b d =
     b\<lparr>all_api_classes := all_api_classes b @ doc_api d,
       all_code_blocks :=
         (if doc_blocks d \<noteq> [] then AList.update (docname d) (doc_blocks d) (all_code_blocks b)
          else all_code_blocks b)\<rparr>"
  by (cases "walkabout \<lparr>data = [], current_class = None\<rparr> (doctree d)")
    (simp add: write_doc_def doc_api_def doc_blocks_def doc_visit_def)

lemma collect_api:
  "all_api_classes (foldl write_doc b docs) = all_api_classes b @ concat (map doc_api docs)"
  by (induction docs arbitrary: b) (simp_all add: write_doc_eq)

lemma collects_Nil_examples: "collects [] d \<Longrightarrow> r \<in> set d \<Longrightarrow> examples r = []"
  by (auto simp: collects_def in_set_conv_nth)

lemma doc_api_examples: "r \<in> set (doc_api d) \<Longrightarrow> examples r = []"
proof -
  assume r: "r \<in> set (doc_api d)"
  have "collects [] (data (fst (doc_visit d)))"
    using walkabout_collects(1) [of "\<lparr>data = [], current_class = None\<rparr>" "doctree d"]
    by (simp add: doc_visit_def)
  then show ?thesis using r collects_Nil_examples by (auto simp: doc_api_def split: if_splits)
qed

lemma collected_examples:
  "r \<in> set (all_api_classes (foldl write_doc init docs)) \<Longrightarrow> examples r = []"
  by (auto simp: collect_api init_def doc_api_examples)

lemma collects_prefix: "collects d d' \<Longrightarrow> prefix (map class_name d) (map class_name d')"
proof -
  assume c: "collects d d'"
  then have l: "length d \<le> length d'" by (simp add: collects_def)
  have "class_name (d' ! i) = class_name (d ! i)" if "i < length d" for i
  proof -
    from c that obtain ps where "d' ! i = (d ! i)\<lparr>parameters := parameters (d ! i) @ ps\<rparr>"
      unfolding collects_def by blast
    then show ?thesis by simp
  qed
  then have "map class_name d = take (length d) (map class_name d')"
    using l by (intro nth_equalityI) simp_all
  then show ?thesis by (metis take_is_prefix)
qed

lemma build_records:
  assumes "build lib docs = Inr out"
  shows "map (\<lambda>r. r\<lparr>examples := []\<rparr>) out = concat (map doc_api docs)"
proof -
  let ?recs = "all_api_classes (foldl write_doc init docs)"
  have e: "extends ?recs out" using assms unfolding build_def by (rule finish_extends)
  have recs: "?recs = concat (map doc_api docs)" by (simp add: collect_api init_def)
  have "map (\<lambda>r. r\<lparr>examples := []\<rparr>) out = ?recs"
  proof (rule nth_equalityI)
    show "length (map (\<lambda>r. r\<lparr>examples := []\<rparr>) out) = length ?recs"
      using e by (simp add: extends_length)
  next
    fix i assume "i < length (map (\<lambda>r. r\<lparr>examples := []\<rparr>) out)"
    then have i: "i < length ?recs" and io: "i < length out" using e by (simp_all add: extends_length)
    from e i obtain new where n: "out ! i = (?recs ! i)\<lparr>examples := examples (?recs ! i) @ new\<rparr>"
      unfolding extends_def by blast
    have "examples (?recs ! i) = []" using collected_examples [of "?recs ! i" docs] i by simp
    then have "(out ! i)\<lparr>examples := []\<rparr> = ?recs ! i" unfolding n by simp
    then show "map (\<lambda>r. r\<lparr>examples := []\<rparr>) out ! i = ?recs ! i" using io by simp
  qed
  then show ?thesis using recs by simp
qed

section \<open>The order of a walk\<close>

lemma sig_ids_children:
  "map (\<lambda>(p, s). get_ids s) (traverse_children DescSignature i ks) = concat (map (snd \<circ> part) ks)"
  by (induction ks arbitrary: i) (auto simp: part_def sig_ids_def case_prod_unfold comp_def)

lemma class_names_children: "class_names_children ks = concat (map (fst \<circ> part) ks)"
  by (induction ks) (auto simp: part_def)

lemma sig_ids_Element:
  "sig_ids (Element c ot is sp ks) = (if c = DescSignature then [is] else []) @ concat (map (snd \<circ> part) ks)"
proof -
  have "sig_ids (Element c ot is sp ks) =
      (if c = DescSignature then [get_ids (Element c ot is sp ks)] else []) @
      map (\<lambda>(p, s). get_ids s) (traverse_children DescSignature 0 ks)"
    by (simp add: sig_ids_def)
  then show ?thesis unfolding sig_ids_children by (simp add: get_ids_def)
qed

lemma first_map: "first (map f xs) = map_option f (first xs)"
  by (cases xs) (simp_all add: first_def)

lemma own_name_sig_ids:
  "own_name (Element c ot is sp ks) =
     (if c = Desc \<and> ot = Some (ustr ''class'') then
        (case first (sig_ids (Element c ot is sp ks)) of
           None \<Rightarrow> []
         | Some names \<Rightarrow> [if names \<noteq> [] then hd names else ustr ''UnknownClass''])
      else [])"
  by (simp add: own_name_def sig_ids_def first_map split: option.splits)

lemma bare_part:
  "bare n \<Longrightarrow> class_names n = [] \<and> sig_ids n = []"
  "list_all bare ks \<Longrightarrow> class_names_children ks = [] \<and> traverse_children DescSignature i ks = []"
proof (induction n and ks arbitrary: and i rule: class_names_class_names_children.induct)
  case (3 c ot "is" sp ks)
  then show ?case by (simp add: own_name_def sig_ids_def)
next
  case (5 k ks)
  then show ?case by (auto simp: sig_ids_def)
qed (simp_all add: sig_ids_def)

lemma bare_tidy: "bare n \<Longrightarrow> tidy n"
  by (induction n) (auto simp: list_all_iff)

lemma list_all_update: "list_all P xs \<Longrightarrow> P x \<Longrightarrow> list_all P (xs[i := x])"
  using set_update_subset_insert [of xs i x] by (auto simp: list_all_iff)

lemma swaps_refl: "tidy k \<Longrightarrow> swaps k k"
  by (simp add: swaps_def)

lemma swaps_trans: "swaps a b \<Longrightarrow> swaps b c \<Longrightarrow> swaps a c"
  by (simp add: swaps_def)

lemma swaps_detach: "bare m \<Longrightarrow> swaps m (Detached m)"
  by (simp add: swaps_def part_def bare_part(1))

lemma swaps_update:
  assumes t: "tidy (Element c ot is sp ks)" and i: "i < length ks" and s: "swaps (ks ! i) k'"
  shows "swaps (Element c ot is sp ks) (Element c ot is sp (ks[i := k']))"
proof -
  have p: "map part (ks[i := k']) = map part ks"
    using s i by (simp add: swaps_def map_update list_update_same_conv)
  have "map (fst \<circ> part) (ks[i := k']) = map (fst \<circ> part) ks"
    "map (snd \<circ> part) (ks[i := k']) = map (snd \<circ> part) ks"
    using p by (metis map_map)+
  then have sg: "sig_ids (Element c ot is sp (ks[i := k'])) = sig_ids (Element c ot is sp ks)"
    and cn: "class_names_children (ks[i := k']) = class_names_children ks"
    by (simp_all add: sig_ids_Element class_names_children)
  have "class_names (Element c ot is sp (ks[i := k'])) = class_names (Element c ot is sp ks)"
    by (simp only: class_names.simps own_name_sig_ids sg cn)
  then have 1: "part (Element c ot is sp (ks[i := k'])) = part (Element c ot is sp ks)"
    using sg by (simp add: part_def)
  have ti: "tidy (ks ! i)" using t i by (auto simp: list_all_iff bare_tidy split: if_splits)
  have k': "tidy k'" "bare (ks ! i) \<longrightarrow> bare k'" using s by (simp_all add: swaps_def)
  have 2: "tidy (Element c ot is sp (ks[i := k']))"
  proof (cases "c = Strong \<or> c = Emphasis")
    case True
    then have "list_all bare ks" using t by simp
    moreover then have "bare k'" using k'(2) i by (simp add: list_all_iff)
    ultimately show ?thesis using True by (simp add: list_all_update)
  next
    case False
    then have "list_all tidy ks" using t by simp
    then show ?thesis using False k'(1) by (simp add: list_all_update)
  qed
  have 3: "bare (Element c ot is sp ks) \<longrightarrow> bare (Element c ot is sp (ks[i := k']))"
  proof
    assume b: "bare (Element c ot is sp ks)"
    then have "list_all bare ks" by simp
    moreover then have "bare k'" using k'(2) i by (simp add: list_all_iff)
    ultimately show "bare (Element c ot is sp (ks[i := k']))" using b by (simp add: list_all_update)
  qed
  show ?thesis unfolding swaps_def using 1 2 3 by blast
qed

lemma swaps_modify:
  "tidy n \<Longrightarrow> node_at n p = Some m \<Longrightarrow> swaps m (f m) \<Longrightarrow> swaps n (modify_at p f n)"
proof (induction n p arbitrary: m rule: node_at.induct)
  case (1 n p)
  then have b: "bare n" by simp
  then have "swaps n (modify_at p f n)" using 1 by (simp add: bare_tidy)
  then have "bare (modify_at p f n)" using b by (simp add: swaps_def)
  then show ?case by (simp add: swaps_def part_def)
next
  case (5 c ot "is" sp ks i p)
  then have i: "i < length ks" and at: "node_at (ks ! i) p = Some m"
    by (auto split: if_splits)
  have ti: "tidy (ks ! i)" using 5(2) i by (auto simp: list_all_iff bare_tidy split: if_splits)
  have "swaps (ks ! i) (modify_at p f (ks ! i))"
    using 5(1) [OF i ti at 5(4)] .
  then show ?case using i swaps_update [OF 5(2) i] by simp
qed auto

lemma tidy_node_at: "tidy n \<Longrightarrow> node_at n p = Some m \<Longrightarrow> tidy m"
proof (induction n p arbitrary: m rule: node_at.induct)
  case (1 n p)
  then show ?case by (simp add: bare_tidy)
next
  case (5 c ot "is" sp ks i p)
  then have i: "i < length ks" and at: "node_at (ks ! i) p = Some m"
    by (auto split: if_splits)
  have ti: "tidy (ks ! i)" using 5(2) i by (auto simp: list_all_iff bare_tidy split: if_splits)
  show ?case using 5(1) [OF i ti at] .
qed auto

lemma traverse_class:
  "(p, m) \<in> set (traverse c n) \<Longrightarrow> \<exists>ot is sp ks. m = Element c ot is sp ks"
  "(p, m) \<in> set (traverse_children c i ks) \<Longrightarrow> \<exists>ot is sp ks. m = Element c ot is sp ks"
  by (induction c n and c i ks arbitrary: p and p rule: traverse_traverse_children.induct)
    (auto split: if_splits)

lemma inline_bare: "tidy m \<Longrightarrow> inline m \<Longrightarrow> bare m"
  by (cases m) (auto simp: inline_def)

lemma inline_at_modify:
  "map_option inline (node_at (modify_at p Detached n) q) = map_option inline (node_at n q)"
proof (induction p "Detached" n arbitrary: q rule: modify_at.induct)
  case (5 i p c ot "is" sp ks)
  show ?case
  proof (cases q)
    case Nil
    then show ?thesis by (simp add: inline_def)
  next
    case (Cons j q')
    show ?thesis
    proof (cases "i < length ks")
      case True
      then show ?thesis using 5 Cons by (cases "j = i") simp_all
    next
      case False
      then show ?thesis by simp
    qed
  qed
qed simp_all

lemma swaps_detach_at:
  assumes t: "tidy n" and at: "node_at n p = Some m" and i: "inline m"
  shows "swaps n (modify_at p Detached n)"
proof -
  have "tidy m" using t at by (rule tidy_node_at)
  then have "bare m" using i by (rule inline_bare)
  then have "swaps m (Detached m)" by (rule swaps_detach)
  with t at show ?thesis by (rule swaps_modify)
qed

lemma swaps_read_param:
  assumes t: "tidy para"
  shows "swaps para (snd (read_param para))"
proof -
  define para1 where "para1 =
    (case first (traverse Strong para) of None \<Rightarrow> para | Some (sp, s) \<Rightarrow> modify_at sp Detached para)"
  define para2 where "para2 =
    (case first (traverse Emphasis para) of None \<Rightarrow> para1 | Some (ep, e) \<Rightarrow> modify_at ep Detached para1)"
  have r: "snd (read_param para) = para2"
    by (simp add: read_param_def Let_def para1_def para2_def split: option.splits prod.splits)
  have s1: "swaps para para1"
  proof (cases "first (traverse Strong para)")
    case None
    then show ?thesis using t by (simp add: para1_def swaps_refl)
  next
    case (Some a)
    obtain sp s where a: "a = (sp, s)" by (cases a)
    have m: "(sp, s) \<in> set (traverse Strong para)" using Some a by (simp add: first_mem)
    then have "node_at para sp = Some s" by (rule traverse_node_at(1))
    moreover have "inline s" using traverse_class(1) [OF m] by (auto simp: inline_def)
    ultimately have "swaps para (modify_at sp Detached para)" using t swaps_detach_at by blast
    then show ?thesis using Some a by (simp add: para1_def)
  qed
  then have t1: "tidy para1" by (simp add: swaps_def)
  have s2: "swaps para1 para2"
  proof (cases "first (traverse Emphasis para)")
    case None
    then show ?thesis using t1 by (simp add: para2_def swaps_refl)
  next
    case (Some a)
    obtain ep e where a: "a = (ep, e)" by (cases a)
    have m: "(ep, e) \<in> set (traverse Emphasis para)" using Some a by (simp add: first_mem)
    then have at: "node_at para ep = Some e" by (rule traverse_node_at(1))
    have ie: "inline e" using traverse_class(1) [OF m] by (auto simp: inline_def)
    have "map_option inline (node_at para1 ep) = Some True"
    proof (cases "first (traverse Strong para)")
      case None
      then show ?thesis using at ie by (simp add: para1_def)
    next
      case (Some b)
      then show ?thesis using at ie by (cases b) (simp add: para1_def inline_at_modify)
    qed
    then obtain e' where "node_at para1 ep = Some e'" "inline e'" by auto
    then have "swaps para1 (modify_at ep Detached para1)" using t1 swaps_detach_at by blast
    then show ?thesis using Some a by (simp add: para2_def)
  qed
  from s1 s2 show ?thesis unfolding r by (rule swaps_trans)
qed

lemma swaps_visit_list_item:
  assumes t: "tidy item"
  shows "swaps item (snd (visit_list_item item))"
proof (cases "first (traverse Paragraph item)")
  case None
  then show ?thesis using t by (simp add: visit_list_item_def swaps_refl)
next
  case (Some a)
  obtain pp para where a: "a = (pp, para)" by (cases a)
  obtain r para' where rp: "read_param para = (r, para')" by (cases "read_param para")
  have "(pp, para) \<in> set (traverse Paragraph item)" using Some a by (simp add: first_mem)
  then have at: "node_at item pp = Some para" by (rule traverse_node_at(1))
  have "tidy para" using t at by (rule tidy_node_at)
  then have "swaps para para'" using swaps_read_param [of para] rp by simp
  with t at have "swaps item (modify_at pp (\<lambda>_. para') item)" by (rule swaps_modify)
  then show ?thesis using Some a rp by (simp add: visit_list_item_def)
qed

lemma swaps_visit_list_items:
  assumes t: "tidy body"
  shows "swaps body (snd (visit_list_items paths body))"
proof -
  have "swaps body (snd (foldl (\<lambda>(acc, body) p.
              case node_at body p of
                None \<Rightarrow> (acc, body)
              | Some list_item \<Rightarrow>
                  (let (rs, list_item') = visit_list_item list_item
                   in (acc @ rs, modify_at p (\<lambda>_. list_item') body))) (acc, body) paths))"
    if "tidy body" for acc body
    using that
  proof (induction paths arbitrary: acc body)
    case Nil
    then show ?case by (simp add: swaps_refl)
  next
    case (Cons p paths)
    show ?case
    proof (cases "node_at body p")
      case None
      then show ?thesis using Cons by simp
    next
      case (Some item)
      obtain rs item' where vi: "visit_list_item item = (rs, item')" by (cases "visit_list_item item")
      have "tidy item" using Cons.prems Some by (rule tidy_node_at)
      then have "swaps item item'" using swaps_visit_list_item [of item] vi by simp
      with Cons.prems Some have s: "swaps body (modify_at p (\<lambda>_. item') body)"
        by (rule swaps_modify)
      then have "tidy (modify_at p (\<lambda>_. item') body)" by (simp add: swaps_def)
      from Cons.IH [OF this] s show ?thesis using Some vi by (auto intro: swaps_trans)
    qed
  qed
  then show ?thesis using t by (simp add: visit_list_items_def)
qed

lemma swaps_visit_field:
  assumes t: "tidy n"
  shows "swaps n (snd (visit_field v n))"
proof (cases "current_class v")
  case None
  then show ?thesis using t by (simp add: visit_field_def swaps_refl)
next
  case (Some cur)
  show ?thesis
  proof (cases n)
    case (Element c ot "is" sp ks)
    show ?thesis
    proof (cases "\<exists>i a j b. live_children ks = [(i, a), (j, b)] \<and> contains (ustr ''Parameters'') (astext a)")
      case True
      then obtain i a j b where lc: "live_children ks = [(i, a), (j, b)]"
        and c: "contains (ustr ''Parameters'') (astext a)" by blast
      obtain ps body' where vl: "visit_list_items (map fst (traverse ListItem b)) b = (ps, body')"
        by (cases "visit_list_items (map fst (traverse ListItem b)) b")
      have j: "j < length ks" "ks ! j = b" using live_children_nth [of j b ks] lc by auto
      have "tidy b" using t Element j by (auto simp: list_all_iff bare_tidy split: if_splits)
      then have "swaps b body'"
        using swaps_visit_list_items [of b "map fst (traverse ListItem b)"] vl by simp
      then have "swaps (Element c ot is sp ks) (Element c ot is sp (ks[j := body']))"
        using swaps_update [OF t [unfolded Element] j(1)] j(2) by simp
      then show ?thesis using Some Element lc c vl by (simp add: visit_field_def)
    next
      case False
      then have "visit_field v n = (v, n)"
        using Some Element
        by (auto simp: visit_field_def split: list.splits prod.splits)
      then show ?thesis using t by (simp add: swaps_refl)
    qed
  qed (use t in \<open>simp_all add: visit_field_def Some swaps_refl\<close>)
qed

lemma names_add_parameters: "map class_name (add_parameters cur ps d) = map class_name d"
proof (cases "cur < length d")
  case True
  then show ?thesis by (simp add: add_parameters_def map_update list_update_same_conv)
next
  case False
  then show ?thesis by (simp add: add_parameters_def list_update_beyond)
qed

lemma dispatch_visit_names:
  "map class_name (data (fst (dispatch_visit v n))) = map class_name (data v) @ own_name n"
proof (cases n)
  case (Element c ot "is" sp ks)
  consider "c = Desc" | "c = Field" | "c \<noteq> Desc" "c \<noteq> Field" by blast
  then show ?thesis
  proof cases
    case 1
    then show ?thesis using Element
      by (auto simp: dispatch_visit_def visit_desc_def own_name_def get_objtype_def split: option.splits)
  next
    case 2
    then show ?thesis using Element visit_field_data [of v n]
      by (auto simp: dispatch_visit_def own_name_def names_add_parameters)
  next
    case 3
    then show ?thesis using Element by (simp add: dispatch_visit_def own_name_def)
  qed
qed (simp_all add: dispatch_visit_def own_name_def)

lemma dispatch_visit_children:
  assumes t: "tidy (Element c ot is sp ks)"
  shows "list_all tidy (node_children (snd (dispatch_visit v (Element c ot is sp ks)))) \<and>
    class_names_children (node_children (snd (dispatch_visit v (Element c ot is sp ks)))) =
      class_names_children ks"
proof -
  let ?n = "Element c ot is sp ks"
  have s: "swaps ?n (snd (dispatch_visit v ?n))"
  proof (cases "c = Field")
    case True
    have "swaps ?n (snd (visit_field v ?n))" using t by (rule swaps_visit_field)
    then show ?thesis using True by (simp add: dispatch_visit_def)
  next
    case False
    then show ?thesis using t by (simp add: dispatch_visit_def swaps_refl)
  qed
  obtain ks' where n1: "snd (dispatch_visit v ?n) = Element c ot is sp ks'"
    using dispatch_visit_Element [of v c ot "is" sp ks] by blast
  from s have p: "part (Element c ot is sp ks') = part ?n" and t': "tidy (Element c ot is sp ks')"
    unfolding n1 by (simp_all add: swaps_def)
  from p have cn: "class_names (Element c ot is sp ks') = class_names ?n"
    and sg: "sig_ids (Element c ot is sp ks') = sig_ids ?n"
    by (simp_all add: part_def)
  have "own_name (Element c ot is sp ks') = own_name ?n"
    by (simp only: own_name_sig_ids sg)
  with cn have "class_names_children ks' = class_names_children ks" by simp
  moreover have "list_all tidy ks'" using t' by (auto simp: list_all_iff bare_tidy split: if_splits)
  ultimately show ?thesis by (simp add: n1 node_children_def)
qed

lemma walkabout_names:
  "tidy n \<Longrightarrow> map class_name (data (fst (walkabout v n))) = map class_name (data v) @ class_names n"
  "list_all tidy ks \<Longrightarrow>
     map class_name (data (fst (walk_children v ks))) = map class_name (data v) @ class_names_children ks"
proof (induction v n and v ks rule: walkabout_walk_children.induct)
  case (1 v s)
  show ?case by simp
next
  case (2 v n)
  then show ?case by (cases "walkabout v n") (simp add: bare_tidy)
next
  case (3 v c ot "is" sp ks)
  obtain v1 n1 where d: "dispatch_visit v (Element c ot is sp ks) = (v1, n1)"
    by (cases "dispatch_visit v (Element c ot is sp ks)")
  obtain v2 ks2 where w: "walk_children v1 (node_children n1) = (v2, ks2)"
    by (cases "walk_children v1 (node_children n1)")
  have ch: "list_all tidy (node_children n1)" "class_names_children (node_children n1) = class_names_children ks"
    using dispatch_visit_children [OF 3(2), of v] d by simp_all
  have "map class_name (data v1) = map class_name (data v) @ own_name (Element c ot is sp ks)"
    using dispatch_visit_names [of v "Element c ot is sp ks"] d by simp
  moreover have "map class_name (data v2) = map class_name (data v1) @ class_names_children (node_children n1)"
    using 3(1) [OF d [symmetric] refl ch(1)] w by simp
  ultimately show ?case using d w ch(2) by (simp add: dispatch_departure_data)
next
  case (4 v)
  show ?case by simp
next
  case (5 v k ks)
  from 5(4) have tk: "tidy k" and tks: "list_all tidy ks" by simp_all
  show ?case
  proof (cases "live k")
    case True
    obtain v1 k1 where a: "walkabout v k = (v1, k1)" by (cases "walkabout v k")
    obtain v2 ks2 where b: "walk_children v1 ks = (v2, ks2)" by (cases "walk_children v1 ks")
    have "map class_name (data v1) = map class_name (data v) @ class_names k"
      using 5(1) [OF True tk] a by simp
    moreover have "map class_name (data v2) = map class_name (data v1) @ class_names_children ks"
      using 5(2) [OF True a [symmetric] refl tks] b by simp
    ultimately show ?thesis using True a b by simp
  next
    case False
    then show ?thesis using 5(3) [OF False tks] by (cases "walk_children v ks") simp
  qed
qed

lemma doc_api_names:
  "tidy (doctree d) \<Longrightarrow>
     map class_name (doc_api d) =
       (if contains (ustr ''reference/python'') (docname d) then class_names (doctree d) else [])"
  using walkabout_names(1) [of "doctree d" "\<lparr>data = [], current_class = None\<rparr>"]
  by (simp add: doc_api_def doc_visit_def)

lemma build_names:
  assumes b: "build lib docs = Inr out" and t: "\<forall>d\<in>set docs. tidy (doctree d)"
  shows "map class_name out =
    concat (map (\<lambda>d. if contains (ustr ''reference/python'') (docname d)
                     then class_names (doctree d) else []) docs)"
proof -
  have "map class_name (map (\<lambda>r. r\<lparr>examples := []\<rparr>) out) = map class_name (concat (map doc_api docs))"
    using build_records [OF b] by simp
  then have "map class_name out = concat (map (\<lambda>d. map class_name (doc_api d)) docs)"
    by (simp add: map_concat comp_def)
  also have "\<dots> = concat (map (\<lambda>d. if contains (ustr ''reference/python'') (docname d)
                     then class_names (doctree d) else []) docs)"
    using t by (intro arg_cong [where f = concat] map_cong refl) (simp add: doc_api_names)
  finally show ?thesis .
qed


section \<open>The concrete builds, run\<close>

lemma widget_walk:
  "data (fst (walkabout \<lparr>data = [], current_class = None\<rparr> widget_tree)) = [widget_record []]"
  by (simp add: widget_tree_def widget_record_def size_param_def text_defs tree_defs visit_defs)

lemma example_blocks:
  "code_walkabout [] example_tree = [ustr ''w = Widget(size=3); Widget()'']"
  by (simp add: example_tree_def text_defs tree_defs)

lemma widget_build:
  "build ascii_lib widget_docs = Inr [widget_record [ustr ''w = Widget(size=3); Widget()'']]"
  by (simp add: build_def widget_docs_def write_doc_def init_def widget_tree_def example_tree_def
      widget_record_def size_param_def text_defs tree_defs visit_defs link_defs)

lemma order_build: "build ascii_lib order_docs = Inr order_out"
  by (simp add: build_def order_docs_def order_out_def bare_record_def
      write_doc_def init_def text_defs tree_defs visit_defs link_defs)

section \<open>Linking: the claims\<close>

lemma ex_finish: "finish ascii_lib ex_builder = Inr ex_linked"
  by code_simp

lemma last_with_exists:
  "i < length recs \<Longrightarrow> \<exists>k. i \<le> k \<and> last_with recs (split_last (class_name (recs ! i))) k"
proof (induction recs rule: rev_induct)
  case Nil
  then show ?case by simp
next
  case (snoc r recs)
  let ?S = "split_last (class_name ((recs @ [r]) ! i))"
  show ?case
  proof (cases "split_last (class_name r) = ?S")
    case True
    have "last_with (recs @ [r]) ?S (length recs)"
      using last_with_snoc_same [OF True] by simp
    moreover have "i \<le> length recs" using snoc.prems by simp
    ultimately show ?thesis by blast
  next
    case False
    then have i: "i < length recs" using snoc.prems by (cases "i = length recs") auto
    then have S: "?S = split_last (class_name (recs ! i))" by (simp add: nth_append)
    from snoc.IH [OF i] obtain k where "i \<le> k" "last_with recs ?S k" unfolding S by blast
    then show ?thesis using last_with_snoc_other [OF False] by blast
  qed
qed

lemma finish_raises:
  assumes "(sn, i) \<in> set (class_map (all_api_classes b))"
    and "\<not> plain sn" "plain_or_paren sn" "unbalanced 0 sn"
    and "(dn, cbs) \<in> set (all_code_blocks b)" "code \<in> set cbs"
  shows "\<exists>e. finish lib b = Inl e"
proof (cases "finish lib b")
  case (Inl e)
  then show ?thesis by blast
next
  case (Inr out)
  have "(code, sn, i) \<in> set (link_steps (class_map (all_api_classes b)) (all_code_blocks b))"
    using assms by (auto simp: link_steps_mem)
  from finish_hits [OF Inr this] assms(2-4) show ?thesis
    by (simp add: re_search_word_def)
qed


lemma whole_word_in_search: "whole_word_in lib S B \<longleftrightarrow> search_from lib None S B"
  by (simp add: whole_word_in_def search_from_iff)










text \<open>
  Claim C1. \<open>S\<close> is a short name of the lookup, standing for the record at position \<open>i\<close>, and
  \<open>B\<close> is a collected code block. When \<open>S\<close> occurs in \<open>B\<close> between two word boundaries,
  \<open>B\<close> is among the examples of the record after linking. When it does not (\<open>S\<close> occurs
  only inside longer words of \<open>B\<close>, or not at all), \<open>B\<close> is not among them, a record that
  held \<open>B\<close> before linking apart; after collection no record holds an example, so for the
  records of a build the two are equivalent. The short name is one without special
  characters, as the identifiers of the host framework are; the hypothesis that \<^verbatim>\<open>finish\<close>
  returns then holds as soon as the other short names are of this kind too
  (\<open>finish_plain_total\<close>).
\<close>

theorem whole_word_linking:
  assumes "finish lib b = Inr out"
    and "(S, i) \<in> set (class_map (all_api_classes b))" and "plain S"
    and "(dn, cbs) \<in> set (all_code_blocks b)" and "B \<in> set cbs"
  shows "(whole_word_in lib S B \<longrightarrow> B \<in> set (examples (out ! i))) \<and>
         (\<not> whole_word_in lib S B \<and> B \<notin> set (examples (all_api_classes b ! i)) \<longrightarrow>
            B \<notin> set (examples (out ! i))) \<and>
         (b = foldl write_doc init docs \<longrightarrow>
            (B \<in> set (examples (out ! i)) \<longleftrightarrow> whole_word_in lib S B))"
proof (intro conjI impI)
  have step: "(B, S, i) \<in> set (link_steps (class_map (all_api_classes b)) (all_code_blocks b))"
    using assms(2,4,5) by (auto simp: link_steps_mem)
  show hit: "B \<in> set (examples (out ! i))" if "whole_word_in lib S B"
    using that finish_hits [OF assms(1) step] re_search_word_plain [OF assms(3), of lib B] by auto
  show miss: "B \<notin> set (examples (out ! i))"
    if "\<not> whole_word_in lib S B \<and> B \<notin> set (examples (all_api_classes b ! i))"
    using that linked_iff_whole_word [OF assms(1,2,3,4,5)] by blast
  assume b: "b = foldl write_doc init docs"
  have "i < length (all_api_classes b)" using assms(2) by (rule class_map_index)
  then have "all_api_classes b ! i \<in> set (all_api_classes (foldl write_doc init docs))"
    unfolding b by (rule nth_mem)
  then have "examples (all_api_classes b ! i) = []" by (rule collected_examples)
  then have "B \<notin> set (examples (all_api_classes b ! i))" by simp
  then show "B \<in> set (examples (out ! i)) \<longleftrightarrow> whole_word_in lib S B"
    using hit miss by blast
qed

theorem whole_word_linking_witness:
  "finish ascii_lib ex_builder = Inr ex_linked \<and>
   (ustr ''Agent'', 2) \<in> set (class_map (all_api_classes ex_builder)) \<and>
   plain (ustr ''Agent'') \<and>
   whole_word_in ascii_lib (ustr ''Agent'') (ustr ''a = Agent(); b = Agent()'') \<and>
   ustr ''a = Agent(); b = Agent()'' \<in> set (examples (ex_linked ! 2)) \<and>
   \<not> whole_word_in ascii_lib (ustr ''Agent'') (ustr ''AssistantAgent()'') \<and>
   ustr ''AssistantAgent()'' \<notin> set (examples (ex_linked ! 2))"
proof -
  let ?blocks = "[ustr ''x = Bar()'', ustr ''AssistantAgent()'', ustr ''a = Agent(); b = Agent()'']"
  have 1: "(ustr ''Agent'', 2) \<in> set (class_map (all_api_classes ex_builder))" by code_simp
  have 2: "plain (ustr ''Agent'')" by code_simp
  have 3: "(ustr ''guide/a'', ?blocks) \<in> set (all_code_blocks ex_builder)"
    by (simp add: ex_builder_def)
  have 4: "ustr ''a = Agent(); b = Agent()'' \<in> set ?blocks" by simp
  have 5: "ustr ''AssistantAgent()'' \<in> set ?blocks" by simp
  have 6: "whole_word_in ascii_lib (ustr ''Agent'') (ustr ''a = Agent(); b = Agent()'')"
    unfolding whole_word_in_search by code_simp
  have 7: "\<not> whole_word_in ascii_lib (ustr ''Agent'') (ustr ''AssistantAgent()'')"
    unfolding whole_word_in_search by code_simp
  have 8: "ustr ''AssistantAgent()'' \<notin> set (examples (all_api_classes ex_builder ! 2))"
    by (simp add: ex_builder_def new_class_def)
  from whole_word_linking [OF ex_finish 1 2 3 4] 6
  have 9: "ustr ''a = Agent(); b = Agent()'' \<in> set (examples (ex_linked ! 2))" by blast
  from whole_word_linking [OF ex_finish 1 2 3 5] 7 8
  have 10: "ustr ''AssistantAgent()'' \<notin> set (examples (ex_linked ! 2))" by blast
  show ?thesis by (intro conjI ex_finish 1 2 6 9 7 10)
qed

text \<open>
  Claim C3. Linking is idempotent: when \<^verbatim>\<open>finish\<close> has linked the collected records without
  raising, linking its result again with the same code blocks returns that result
  unchanged.
\<close>

theorem linking_idempotent:
  "finish lib b = Inr out \<Longrightarrow> finish lib (b\<lparr>all_api_classes := out\<rparr>) = Inr out"
  by (rule finish_idempotent)

theorem linking_idempotent_witness:
  "finish ascii_lib ex_builder = Inr ex_linked \<and>
   finish ascii_lib (ex_builder\<lparr>all_api_classes := ex_linked\<rparr>) = Inr ex_linked"
  using linking_idempotent [OF ex_finish] ex_finish by simp

text \<open>
  Claim C4. Two collected records, at the positions \<open>i < j\<close>, have the same short name \<open>S\<close>.
  The lookup then holds one entry for \<open>S\<close>, and it stands for the record at a position \<open>k\<close>
  from \<open>j\<close> on that has the short name \<open>S\<close> and is the last record to have it: the one
  collected last, which is \<open>j\<close> itself when no later record has that short name. The
  earlier record \<open>i\<close> is not in the lookup under any name, and linking leaves it as it was:
  it receives no example. Building the lookup cannot raise (\<open>class_map\<close> is a total
  function), the collision adds no error to linking.
\<close>

theorem short_name_collision:
  assumes "i < j" and "j < length (all_api_classes b)"
    and "split_last (class_name (all_api_classes b ! i)) = S"
    and "split_last (class_name (all_api_classes b ! j)) = S"
  shows "\<exists>k. j \<le> k \<and> last_with (all_api_classes b) S k \<and>
           (last_with (all_api_classes b) S j \<longrightarrow> k = j) \<and>
           map_of (class_map (all_api_classes b)) S = Some k \<and>
           (\<forall>k'. (S, k') \<in> set (class_map (all_api_classes b)) \<longleftrightarrow> k' = k) \<and>
           (\<forall>sn. (sn, i) \<notin> set (class_map (all_api_classes b))) \<and>
           (\<forall>out. finish lib b = Inr out \<longrightarrow> out ! i = all_api_classes b ! i)"
proof -
  let ?recs = "all_api_classes b"
  from last_with_exists [OF assms(2)] obtain k where
    k: "j \<le> k" "last_with ?recs S k" unfolding assms(4) by blast
  have only: "k' = k" if "last_with ?recs S k'" for k'
  proof -
    from that have "map_of (class_map ?recs) S = Some k'" by (simp only: map_of_class_map)
    moreover from k(2) have "map_of (class_map ?recs) S = Some k" by (simp only: map_of_class_map)
    ultimately show ?thesis by simp
  qed
  have jk: "last_with ?recs S j \<longrightarrow> k = j" using only by blast
  have m: "map_of (class_map ?recs) S = Some k" using k(2) by (simp only: map_of_class_map)
  have e: "\<forall>k'. (S, k') \<in> set (class_map ?recs) \<longleftrightarrow> k' = k"
  proof (intro allI iffI)
    fix k' assume "(S, k') \<in> set (class_map ?recs)"
    then have "last_with ?recs S k'" by (simp only: class_map_mem)
    then show "k' = k" by (rule only)
  next
    fix k' assume "k' = k"
    then show "(S, k') \<in> set (class_map ?recs)" using k(2) by (simp only: class_map_mem)
  qed
  have no: "(sn, i) \<notin> set (class_map ?recs)" for sn
  proof
    assume "(sn, i) \<in> set (class_map ?recs)"
    then have l: "last_with ?recs sn i" by (simp only: class_map_mem)
    then have sn: "S = sn" unfolding last_with_def using assms(3) by blast
    from l have "\<And>j. i < j \<Longrightarrow> j < length ?recs \<Longrightarrow> split_last (class_name (?recs ! j)) \<noteq> sn"
      unfolding last_with_def by blast
    from this [OF assms(1,2)] have "split_last (class_name (?recs ! j)) \<noteq> sn" .
    with sn assms(4) show False by simp
  qed
  have f: "\<forall>out. finish lib b = Inr out \<longrightarrow> out ! i = ?recs ! i"
  proof (intro allI impI)
    fix out assume "finish lib b = Inr out"
    then show "out ! i = ?recs ! i"
      by (rule finish_untouched) (use no in blast)
  qed
  from k jk m e no f show ?thesis by blast
qed

theorem short_name_collision_witness:
  "split_last (class_name (all_api_classes ex_builder ! 0)) = ustr ''Bar'' \<and>
   split_last (class_name (all_api_classes ex_builder ! 1)) = ustr ''Bar'' \<and>
   class_name (all_api_classes ex_builder ! 1) = ustr ''baz.Bar'' \<and>
   length (all_api_classes ex_builder) = 3 \<and>
   last_with (all_api_classes ex_builder) (ustr ''Bar'') 1 \<and>
   map_of (class_map (all_api_classes ex_builder)) (ustr ''Bar'') = Some 1 \<and>
   (ustr ''Bar'', 0) \<notin> set (class_map (all_api_classes ex_builder)) \<and>
   finish ascii_lib ex_builder = Inr ex_linked \<and>
   ex_linked ! 0 = all_api_classes ex_builder ! 0 \<and>
   examples (ex_linked ! 0) = [] \<and> examples (ex_linked ! 1) = [ustr ''x = Bar()'']"
proof -
  have 1: "(0::nat) < 1" by simp
  have 2: "1 < length (all_api_classes ex_builder)" by (simp add: ex_builder_def)
  have 3: "split_last (class_name (all_api_classes ex_builder ! 0)) = ustr ''Bar''" by code_simp
  have 4: "split_last (class_name (all_api_classes ex_builder ! 1)) = ustr ''Bar''" by code_simp
  have 5: "class_name (all_api_classes ex_builder ! 1) = ustr ''baz.Bar''"
    by (simp add: ex_builder_def new_class_def)
  have 6: "length (all_api_classes ex_builder) = 3" by (simp add: ex_builder_def)
  have 7: "map_of (class_map (all_api_classes ex_builder)) (ustr ''Bar'') = Some 1" by code_simp
  have 8: "examples (ex_linked ! 0) = []" by (simp add: ex_linked_def new_class_def)
  have 9: "examples (ex_linked ! 1) = [ustr ''x = Bar()'']" by (simp add: ex_linked_def new_class_def)
  from short_name_collision [OF 1 2 3 4, of ascii_lib] obtain k where
    k: "last_with (all_api_classes ex_builder) (ustr ''Bar'') k"
      "map_of (class_map (all_api_classes ex_builder)) (ustr ''Bar'') = Some k"
      "\<forall>sn. (sn, 0) \<notin> set (class_map (all_api_classes ex_builder))"
      "\<forall>out. finish ascii_lib ex_builder = Inr out \<longrightarrow> out ! 0 = all_api_classes ex_builder ! 0"
    by blast
  from k(2) 7 have "k = 1" by simp
  with k(1) have 10: "last_with (all_api_classes ex_builder) (ustr ''Bar'') 1" by simp
  from k(3) have 11: "(ustr ''Bar'', 0) \<notin> set (class_map (all_api_classes ex_builder))" by blast
  from k(4) ex_finish have 12: "ex_linked ! 0 = all_api_classes ex_builder ! 0" by blast
  show ?thesis by (intro conjI 3 4 5 6 10 7 11 ex_finish 12 8 9)
qed



text \<open>
  Claim C8. Linking changes the examples only: it returns as many records as were collected,
  in the same order, and the class name, the signature, the description and the parameters
  of each are what they were.
\<close>

theorem linking_frame:
  "finish lib b = Inr out \<Longrightarrow>
     length out = length (all_api_classes b) \<and>
     (\<forall>i<length out.
        class_name (out ! i) = class_name (all_api_classes b ! i) \<and>
        signature (out ! i) = signature (all_api_classes b ! i) \<and>
        description (out ! i) = description (all_api_classes b ! i) \<and>
        parameters (out ! i) = parameters (all_api_classes b ! i))"
proof -
  assume "finish lib b = Inr out"
  then have e: "extends (all_api_classes b) out" by (rule finish_extends)
  then have l: "length out = length (all_api_classes b)" by (rule extends_length)
  show ?thesis using l extends_fields [OF e] by simp
qed

theorem linking_frame_witness:
  "finish ascii_lib ex_builder = Inr ex_linked \<and>
   length ex_linked = length (all_api_classes ex_builder) \<and>
   class_name (ex_linked ! 1) = class_name (all_api_classes ex_builder ! 1) \<and>
   signature (ex_linked ! 1) = signature (all_api_classes ex_builder ! 1) \<and>
   description (ex_linked ! 1) = description (all_api_classes ex_builder ! 1) \<and>
   parameters (ex_linked ! 1) = parameters (all_api_classes ex_builder ! 1) \<and>
   examples (ex_linked ! 1) \<noteq> examples (all_api_classes ex_builder ! 1)"
proof -
  have 1: "(1::nat) < length ex_linked" by (simp add: ex_linked_def)
  have 2: "examples (ex_linked ! 1) \<noteq> examples (all_api_classes ex_builder ! 1)"
    by (simp add: ex_linked_def ex_builder_def new_class_def)
  from linking_frame [OF ex_finish] 1 2 ex_finish show ?thesis by blast
qed

section \<open>Collecting: the claims\<close>

text \<open>
  Claim C2. After linking, no record holds the same example twice. For \<^verbatim>\<open>finish\<close> alone:
  when no record holds an example twice before linking, none does after it, whatever
  the code blocks are (a short name several times in a block, the same block in several
  documents). For a build: the records of the output have no example twice, since
  collection leaves every record without examples.
\<close>

theorem no_duplicate_examples:
  "(finish lib b = Inr out \<and> (\<forall>r\<in>set (all_api_classes b). distinct (examples r)) \<longrightarrow>
      (\<forall>r\<in>set out. distinct (examples r))) \<and>
   (build lib docs = Inr out' \<longrightarrow> (\<forall>r\<in>set out'. distinct (examples r)))"
proof (intro conjI impI)
  assume "finish lib b = Inr out \<and> (\<forall>r\<in>set (all_api_classes b). distinct (examples r))"
  then show "\<forall>r\<in>set out. distinct (examples r)"
    using finish_distinct by blast
next
  assume b: "build lib docs = Inr out'"
  have "\<forall>r\<in>set (all_api_classes (foldl write_doc init docs)). distinct (examples r)"
    using collected_examples by fastforce
  with b show "\<forall>r\<in>set out'. distinct (examples r)"
    unfolding build_def by (rule finish_distinct)
qed

theorem no_duplicate_examples_witness:
  "finish ascii_lib ex_builder = Inr ex_linked \<and>
   examples (ex_linked ! 1) = [ustr ''x = Bar()''] \<and>
   examples (ex_linked ! 2) = [ustr ''a = Agent(); b = Agent()''] \<and>
   distinct (examples (ex_linked ! 0)) \<and> distinct (examples (ex_linked ! 1)) \<and>
   distinct (examples (ex_linked ! 2)) \<and>
   build ascii_lib widget_docs = Inr [widget_record [ustr ''w = Widget(size=3); Widget()'']] \<and>
   distinct (examples (widget_record [ustr ''w = Widget(size=3); Widget()'']))"
proof -
  let ?r = "widget_record [ustr ''w = Widget(size=3); Widget()'']"
  note t = no_duplicate_examples [of ascii_lib ex_builder ex_linked widget_docs "[?r]"]
  have 0: "\<forall>r\<in>set (all_api_classes ex_builder). distinct (examples r)"
    by (simp add: ex_builder_def new_class_def)
  from t ex_finish 0 have a: "\<forall>r\<in>set ex_linked. distinct (examples r)" by blast
  have 1: "examples (ex_linked ! 1) = [ustr ''x = Bar()'']" by (simp add: ex_linked_def new_class_def)
  have 2: "examples (ex_linked ! 2) = [ustr ''a = Agent(); b = Agent()'']"
    by (simp add: ex_linked_def new_class_def)
  have m: "ex_linked ! 0 \<in> set ex_linked" "ex_linked ! 1 \<in> set ex_linked" "ex_linked ! 2 \<in> set ex_linked"
    by (simp_all add: ex_linked_def)
  from a m have 3: "distinct (examples (ex_linked ! 0))" and 4: "distinct (examples (ex_linked ! 1))"
    and 5: "distinct (examples (ex_linked ! 2))" by blast+
  from t widget_build have "\<forall>r\<in>set [?r]. distinct (examples r)" by blast
  then have 6: "distinct (examples ?r)" by simp
  show ?thesis by (intro conjI ex_finish 1 2 3 4 5 widget_build 6)
qed




text \<open>
  Claim C6. \<^verbatim>\<open>write_doc\<close> on one document. The API visitor walks the tree exactly when
  the name of the document contains \<^verbatim>\<open>reference/python\<close> (as a substring, Python's
  \<^verbatim>\<open>in\<close>), and its records are appended to the collected records. The code visitor walks
  the tree exactly when the suffix of the source file is \<^verbatim>\<open>.ipynb\<close> or \<^verbatim>\<open>.md\<close>, and its
  blocks, when there are any, are stored under the name of the document. Neither test
  looks at the other, so a document can pass both, one or none.
\<close>

theorem write_doc_passes:
  "all_api_classes (write_doc b d) =
     all_api_classes b @
       (if contains (ustr ''reference/python'') (docname d) then data (fst (doc_visit d)) else []) \<and>
   all_code_blocks (write_doc b d) =
     (if source_suffix d \<in> {ustr ''.ipynb'', ustr ''.md''}
      then (let blocks = code_walkabout []
                  (if contains (ustr ''reference/python'') (docname d) then snd (doc_visit d)
                   else doctree d)
            in if blocks \<noteq> [] then AList.update (docname d) blocks (all_code_blocks b)
               else all_code_blocks b)
      else all_code_blocks b)"
  by (simp add: write_doc_eq doc_api_def doc_blocks_def Let_def)

theorem write_doc_passes_witness:
  "write_doc init (pass_doc ''reference/python/tool'' ''.md'') =
     \<lparr>all_api_classes = [bare_record (ustr ''pkg.Tool'')],
      all_code_blocks = [(ustr ''reference/python/tool'', [ustr ''Tool()''])]\<rparr> \<and>
   write_doc init (pass_doc ''reference/python/tool'' ''.rst'') =
     \<lparr>all_api_classes = [bare_record (ustr ''pkg.Tool'')], all_code_blocks = []\<rparr> \<and>
   write_doc init (pass_doc ''guide/tool'' ''.ipynb'') =
     \<lparr>all_api_classes = [], all_code_blocks = [(ustr ''guide/tool'', [ustr ''Tool()''])]\<rparr> \<and>
   write_doc init (pass_doc ''guide/tool'' ''.rst'') = init \<and>
   write_doc init (pass_doc ''xreference/python3'' ''.txt'') =
     \<lparr>all_api_classes = [bare_record (ustr ''pkg.Tool'')], all_code_blocks = []\<rparr>"
proof -
  have v: "doc_visit \<lparr>docname = n, source_suffix = s, doctree = both_tree\<rparr> =
      (\<lparr>data = [bare_record (ustr ''pkg.Tool'')], current_class = None\<rparr>, both_tree)" for n s
    by (simp add: doc_visit_def both_tree_def bare_record_def text_defs tree_defs visit_defs)
  have c: "code_walkabout [] both_tree = [ustr ''Tool()'']"
    by (simp add: both_tree_def text_defs tree_defs)
  have eq: "x = y" if "all_api_classes x = all_api_classes y" "all_code_blocks x = all_code_blocks y"
    for x y :: builder using that by simp
  have f1: "write_doc init (pass_doc ''reference/python/tool'' ''.md'') =
     \<lparr>all_api_classes = [bare_record (ustr ''pkg.Tool'')],
      all_code_blocks = [(ustr ''reference/python/tool'', [ustr ''Tool()''])]\<rparr>"
    by (rule eq; simp add: write_doc_passes pass_doc_def v c; simp add: init_def text_defs)
  have f2: "write_doc init (pass_doc ''reference/python/tool'' ''.rst'') =
     \<lparr>all_api_classes = [bare_record (ustr ''pkg.Tool'')], all_code_blocks = []\<rparr>"
    by (rule eq; simp add: write_doc_passes pass_doc_def v c; simp add: init_def text_defs)
  have f3: "write_doc init (pass_doc ''guide/tool'' ''.ipynb'') =
     \<lparr>all_api_classes = [], all_code_blocks = [(ustr ''guide/tool'', [ustr ''Tool()''])]\<rparr>"
    by (rule eq; simp add: write_doc_passes pass_doc_def v c; simp add: init_def text_defs)
  have f4: "write_doc init (pass_doc ''guide/tool'' ''.rst'') = init"
    by (rule eq; simp add: write_doc_passes pass_doc_def v c; simp add: init_def text_defs)
  have f5: "write_doc init (pass_doc ''xreference/python3'' ''.txt'') =
     \<lparr>all_api_classes = [bare_record (ustr ''pkg.Tool'')], all_code_blocks = []\<rparr>"
    by (rule eq; simp add: write_doc_passes pass_doc_def v c; simp add: init_def text_defs)
  show ?thesis by (intro conjI f1 f2 f3 f4 f5)
qed

text \<open>
  Claim C9. The records of the output are in the order of their collection.
  \<^item> The output of a build is the list of the records of the first document, then those of
    the second, and so on, in the order of the calls of \<^verbatim>\<open>write_doc\<close>; linking sets the
    examples and moves nothing.
  \<^item> The class names of the output are the class names of the class descriptions of the
    reference pages, page after page, each page in the order of a walk of its tree: a
    node before the nodes below it, the children of a node from left to right
    (\<open>class_names\<close>). The same for one walk, started with any visitor. The trees are
    tidy ones: \<^verbatim>\<open>visit_field\<close> takes strong and emphasis nodes out of the tree, and a class
    description inside one of them would leave with it.
  \<^item> In any tree, a walk leaves the records made before it at their positions and adds
    its records behind them (\<open>collects\<close>).
\<close>

theorem encounter_order:
  "(build lib docs = Inr out \<longrightarrow> map (\<lambda>r. r\<lparr>examples := []\<rparr>) out = concat (map doc_api docs)) \<and>
   (build lib docs = Inr out \<and> (\<forall>d\<in>set docs. tidy (doctree d)) \<longrightarrow>
      map class_name out =
        concat (map (\<lambda>d. if contains (ustr ''reference/python'') (docname d)
                         then class_names (doctree d) else []) docs)) \<and>
   (tidy n \<longrightarrow>
      map class_name (data (fst (walkabout v n))) = map class_name (data v) @ class_names n) \<and>
   collects (data v) (data (fst (walkabout v n)))"
proof (intro conjI impI)
  assume "build lib docs = Inr out"
  then show "map (\<lambda>r. r\<lparr>examples := []\<rparr>) out = concat (map doc_api docs)"
    by (rule build_records)
next
  assume "build lib docs = Inr out \<and> (\<forall>d\<in>set docs. tidy (doctree d))"
  then show "map class_name out =
        concat (map (\<lambda>d. if contains (ustr ''reference/python'') (docname d)
                         then class_names (doctree d) else []) docs)"
    using build_names by blast
next
  assume "tidy n"
  then show "map class_name (data (fst (walkabout v n))) = map class_name (data v) @ class_names n"
    by (rule walkabout_names(1))
next
  show "collects (data v) (data (fst (walkabout v n)))"
    by (rule walkabout_collects(1))
qed

theorem encounter_order_witness:
  "build ascii_lib order_docs = Inr order_out \<and>
   map class_name order_out = [ustr ''pkg.Zeta'', ustr ''pkg.Alpha'', ustr ''pkg.Mid'', ustr ''pkg.Beta''] \<and>
   concat (map doc_api order_docs) = map (\<lambda>r. r\<lparr>examples := []\<rparr>) order_out \<and>
   tidy (doctree (order_docs ! 0)) \<and> tidy (doctree (order_docs ! 1)) \<and>
   tidy (doctree (order_docs ! 2)) \<and>
   class_names (doctree (order_docs ! 0)) = [ustr ''pkg.Zeta'', ustr ''pkg.Alpha'', ustr ''pkg.Mid''] \<and>
   class_names (doctree (order_docs ! 1)) = [ustr ''pkg.Hidden''] \<and>
   class_names (doctree (order_docs ! 2)) = [ustr ''pkg.Beta''] \<and>
   map class_name (data (fst (walkabout open_visitor (doctree (order_docs ! 0))))) =
     [ustr ''pkg.Widget'', ustr ''pkg.Zeta'', ustr ''pkg.Alpha'', ustr ''pkg.Mid'']"
proof -
  have f1: "map class_name order_out =
      [ustr ''pkg.Zeta'', ustr ''pkg.Alpha'', ustr ''pkg.Mid'', ustr ''pkg.Beta'']"
    by (simp add: order_out_def bare_record_def)
  have t0: "tidy (doctree (order_docs ! 0))" by (simp add: order_docs_def tree_defs)
  have t1: "tidy (doctree (order_docs ! 1))" by (simp add: order_docs_def tree_defs)
  have t2: "tidy (doctree (order_docs ! 2))" by (simp add: order_docs_def tree_defs)
  have c0: "class_names (doctree (order_docs ! 0)) = [ustr ''pkg.Zeta'', ustr ''pkg.Alpha'', ustr ''pkg.Mid'']"
    by (simp add: order_docs_def own_name_def text_defs tree_defs)
  have c1: "class_names (doctree (order_docs ! 1)) = [ustr ''pkg.Hidden'']"
    by (simp add: order_docs_def own_name_def text_defs tree_defs)
  have c2: "class_names (doctree (order_docs ! 2)) = [ustr ''pkg.Beta'']"
    by (simp add: order_docs_def own_name_def text_defs tree_defs)
  note t = encounter_order [of ascii_lib order_docs order_out "doctree (order_docs ! 0)" open_visitor]
  from t order_build have f2: "concat (map doc_api order_docs) = map (\<lambda>r. r\<lparr>examples := []\<rparr>) order_out"
    by simp
  from t t0 have "map class_name (data (fst (walkabout open_visitor (doctree (order_docs ! 0))))) =
      map class_name (data open_visitor) @ class_names (doctree (order_docs ! 0))"
    by blast
  then have f3: "map class_name (data (fst (walkabout open_visitor (doctree (order_docs ! 0))))) =
     [ustr ''pkg.Widget'', ustr ''pkg.Zeta'', ustr ''pkg.Alpha'', ustr ''pkg.Mid'']"
    unfolding c0 by (simp add: open_visitor_def bare_record_def)
  show ?thesis by (intro conjI order_build f1 f2 t0 t1 t2 c0 c1 c2 f3)
qed

text \<open>
  Claim C10. \<^verbatim>\<open>visit_desc\<close> on a node without a signature node in its subtree changes
  nothing: no record is appended, whatever the \<^verbatim>\<open>objtype\<close> of the node, and the visit of
  such a \<^verbatim>\<open>desc\<close> node leaves visitor and tree as they were. On a class description with a
  signature node it appends exactly one record, whose class name is the first identifier
  of the first signature node, or \<^verbatim>\<open>UnknownClass\<close> when that node has no identifier: the
  only place of the sentinel.
\<close>

theorem desc_without_signature:
  "(traverse DescSignature n = [] \<longrightarrow> visit_desc v n = v) \<and>
   (traverse DescSignature (Element Desc ot names sp ks) = [] \<longrightarrow>
      dispatch_visit v (Element Desc ot names sp ks) = (v, Element Desc ot names sp ks)) \<and>
   (get_objtype n = Some (ustr ''class'') \<and> first (traverse DescSignature n) = Some (p, s) \<longrightarrow>
      (\<exists>r. data (visit_desc v n) = data v @ [r] \<and>
         class_name r = (if get_ids s = [] then ustr ''UnknownClass'' else hd (get_ids s))))"
  by (auto simp: visit_desc_def dispatch_visit_def first_def)

theorem desc_without_signature_witness:
  "traverse DescSignature no_signature_desc = [] \<and>
   visit_desc \<lparr>data = [], current_class = None\<rparr> no_signature_desc = \<lparr>data = [], current_class = None\<rparr> \<and>
   dispatch_visit \<lparr>data = [], current_class = None\<rparr> no_signature_desc =
     (\<lparr>data = [], current_class = None\<rparr>, no_signature_desc) \<and>
   data (fst (walkabout \<lparr>data = [], current_class = None\<rparr> no_signature_desc)) = [] \<and>
   get_objtype anonymous_desc = Some (ustr ''class'') \<and>
   first (traverse DescSignature anonymous_desc) =
     Some ([0], Element DescSignature None [] inline_form [Text (ustr ''class Thing'')]) \<and>
   map class_name (data (visit_desc \<lparr>data = [], current_class = None\<rparr> anonymous_desc)) =
     [ustr ''UnknownClass''] \<and>
   map class_name (data (visit_desc \<lparr>data = [], current_class = None\<rparr>
      (named_class (ustr ''pkg.Thing'') []))) = [ustr ''pkg.Thing'']"
proof -
  let ?v = "\<lparr>data = [], current_class = None\<rparr>"
  let ?sig = "Element DescSignature None [] inline_form [Text (ustr ''class Thing'')]"
  let ?ks = "[block_el DescContent [text_el Paragraph [Text (ustr ''Text only.'')]]]"
  have f1: "traverse DescSignature no_signature_desc = []"
    by (simp add: no_signature_desc_def text_el_def block_el_def)
  have f1b: "traverse DescSignature (Element Desc (Some (ustr ''class'')) [] block_form ?ks) = []"
    using f1 by (simp add: no_signature_desc_def)
  note t = desc_without_signature [where n = no_signature_desc and v = ?v
      and ot = "Some (ustr ''class'')" and names = "[]" and sp = block_form and ks = ?ks]
  note u = desc_without_signature [where n = anonymous_desc and v = ?v and p = "[0]" and s = ?sig]
  from t f1 have f2: "visit_desc ?v no_signature_desc = ?v" by blast
  from t f1b have f3: "dispatch_visit ?v no_signature_desc = (?v, no_signature_desc)"
    unfolding no_signature_desc_def by blast
  have f4: "data (fst (walkabout ?v no_signature_desc)) = []"
    by (simp add: no_signature_desc_def text_defs tree_defs visit_defs)
  have f5: "get_objtype anonymous_desc = Some (ustr ''class'')"
    by (simp add: anonymous_desc_def class_desc_def get_objtype_def)
  have f6: "first (traverse DescSignature anonymous_desc) = Some ([0], ?sig)"
    by (simp add: anonymous_desc_def class_desc_def block_el_def first_def)
  from u f5 f6 obtain r where "data (visit_desc ?v anonymous_desc) = data ?v @ [r]"
    "class_name r = (if get_ids ?sig = [] then ustr ''UnknownClass'' else hd (get_ids ?sig))"
    by blast
  then have f7: "map class_name (data (visit_desc ?v anonymous_desc)) = [ustr ''UnknownClass'']"
    by (simp add: get_ids_def)
  have f8: "map class_name (data (visit_desc ?v (named_class (ustr ''pkg.Thing'') []))) = [ustr ''pkg.Thing'']"
    by (simp add: text_defs tree_defs visit_defs)
  show ?thesis by (intro conjI f1 f2 f3 f4 f5 f6 f7 f8)
qed

end
